theory Spec2Isabelle
  imports Main
begin

section \<open>The file system seen by the program\<close>

text \<open>
  A path is the list of its components; \<open>iterdir\<close> of a path yields that path extended
  by one entry name. \<open>kind_of\<close> is what the status query behind \<open>Path.is_dir\<close> and
  \<open>Path.is_file\<close> finds for a path, links followed. The two answer from the kind found:
  both are false for an entry that is neither a directory nor a regular file (a FIFO, a
  socket, a device), and for the failures that \<open>pathlib\<close> turns into \<open>False\<close> (a dangling
  link, a missing entry, a component that is not a directory, a loop of links), which
  \<open>Other\<close> stands for as well. Every other failure of the query is an error that both
  let through, such as a permission error on a component of the path. Listing a directory
  either yields the entry names in enumeration order or raises.
\<close>

type_synonym path = "string list"

datatype kind = Directory | RegularFile | Other

datatype error = PermissionError | NotADirectoryError | FileNotFoundError | OSError | ValueError

record filesystem =
  kind_of :: "path \<Rightarrow> error + kind"
  listdir :: "path \<Rightarrow> error + string list"
  sep :: string

definition is_dir :: "filesystem \<Rightarrow> path \<Rightarrow> error + bool" where
  "is_dir fs p = (case kind_of fs p of Inl e \<Rightarrow> Inl e | Inr k \<Rightarrow> Inr (k = Directory))"

definition is_file :: "filesystem \<Rightarrow> path \<Rightarrow> error + bool" where
  "is_file fs p = (case kind_of fs p of Inl e \<Rightarrow> Inl e | Inr k \<Rightarrow> Inr (k = RegularFile))"

definition name :: "path \<Rightarrow> string" where
  "name p = (if p = [] then [] else last p)"

definition iterdir :: "filesystem \<Rightarrow> path \<Rightarrow> error + path list" where
  "iterdir fs p =
     (case listdir fs p of
        Inl e \<Rightarrow> Inl e
      | Inr names \<Rightarrow> Inr (map (\<lambda>n. p @ [n]) names))"

definition startswith :: "string \<Rightarrow> string \<Rightarrow> bool" where
  "startswith s pre = (take (length pre) s = pre)"

section \<open>TreeNode\<close>

datatype tree_node = TreeNode (state: path) (children: "tree_node list")

definition len :: "tree_node \<Rightarrow> nat" where
  "len node = length (children node)"

definition lt :: "tree_node \<Rightarrow> tree_node \<Rightarrow> bool" where
  "lt self other = (len self < len other)"

text \<open>
  \<open>bisect.insort\<close> is \<open>insort_right\<close>: a binary search for the insertion point with
  the element's \<open>__lt__\<close>, then \<open>list.insert\<close> at that index.
\<close>

function bisect_right :: "tree_node list \<Rightarrow> tree_node \<Rightarrow> nat \<Rightarrow> nat \<Rightarrow> nat" where
  "bisect_right a x lo hi =
     (if lo < hi then
        (let mid = (lo + hi) div 2
         in if lt x (a ! mid) then bisect_right a x lo mid
            else bisect_right a x (mid + 1) hi)
      else lo)"
  by pat_completeness auto
termination
  by (relation "measure (\<lambda>(a, x, lo, hi). hi - lo)") auto

definition list_insert :: "'a list \<Rightarrow> nat \<Rightarrow> 'a \<Rightarrow> 'a list" where
  "list_insert a i x = take i a @ x # drop i a"

definition insort :: "tree_node list \<Rightarrow> tree_node \<Rightarrow> tree_node list" where
  "insort a x = list_insert a (bisect_right a x 0 (length a)) x"

definition add_child :: "tree_node \<Rightarrow> tree_node \<Rightarrow> tree_node" where
  "add_child self child = TreeNode (state self) (insort (children self) child)"

section \<open>Tree\<close>

record args =
  a :: bool
  d :: bool
  f :: bool
  max_depth :: "int option"
  i :: bool

record tree =
  directory :: path
  args :: args
  root :: tree_node
  dir_count :: int
  file_count :: int
  full :: bool

text \<open>
  With \<open>d\<close> unset \<open>is_file\<close> is not called; where it is called it may raise.
\<close>

definition should_include :: "filesystem \<Rightarrow> tree \<Rightarrow> path \<Rightarrow> error + bool" where
  "should_include fs self child =
     (if \<not> a (args self) \<and> (startswith (name child) ''.'' \<or> startswith (name child) ''__'')
      then Inr False
      else if d (args self)
      then (case is_file fs child of
              Inl e \<Rightarrow> Inl e
            | Inr file \<Rightarrow> (if file then Inr False else Inr True))
      else Inr True)"

definition increment_counts :: "filesystem \<Rightarrow> tree \<Rightarrow> path \<Rightarrow> error + tree" where
  "increment_counts fs self child =
     (case is_dir fs child of
        Inl e \<Rightarrow> Inl e
      | Inr folder \<Rightarrow>
          Inr (let self1 = (if folder
                            then self\<lparr>dir_count := dir_count self + 1\<rparr>
                            else self\<lparr>file_count := file_count self + 1\<rparr>)
               in if dir_count self1 + file_count self1 \<ge> 200
                  then self1\<lparr>full := True\<rparr>
                  else self1))"

text \<open>
  The body of the \<open>for\<close> loop of \<open>expand\<close>, over the paths still to be visited. The loop
  runs inside the \<open>try\<close>: its result is the exception that ended it, if one did, with the
  counters and the node as they are at that moment, since both are changed in place.
\<close>

fun expand_loop ::
    "filesystem \<Rightarrow> path list \<Rightarrow> tree \<Rightarrow> tree_node \<Rightarrow> error option \<times> tree \<times> tree_node" where
  "expand_loop fs [] self node = (None, self, node)"
| "expand_loop fs (child # rest) self node =
     (case should_include fs self child of
        Inl e \<Rightarrow> (Some e, self, node)
      | Inr included \<Rightarrow>
          (if \<not> included then expand_loop fs rest self node
           else
             (case increment_counts fs self child of
                Inl e \<Rightarrow> (Some e, self, node)
              | Inr self1 \<Rightarrow>
                  (if full self1 then (None, self1, node)
                   else expand_loop fs rest self1 (add_child node (TreeNode child []))))))"

text \<open>
  \<open>expand\<close>: a \<open>PermissionError\<close> raised by the listing or inside the loop is caught and
  the method returns; every other exception leaves the method.
\<close>

definition expand :: "filesystem \<Rightarrow> tree \<Rightarrow> tree_node \<Rightarrow> error + tree \<times> tree_node" where
  "expand fs self node =
     (case iterdir fs (state node) of
        Inl e \<Rightarrow> (if e = PermissionError then Inr (self, node) else Inl e)
      | Inr entries \<Rightarrow>
          (case expand_loop fs entries self node of
             (None, self1, node1) \<Rightarrow> Inr (self1, node1)
           | (Some e, self1, node1) \<Rightarrow>
               (if e = PermissionError then Inr (self1, node1) else Inl e)))"

definition total :: "tree \<Rightarrow> int" where
  "total self = dir_count self + file_count self"

definition remaining :: "tree \<Rightarrow> nat" where
  "remaining self = (if full self then 0 else nat (200 - total self))"

function generate_tree ::
    "filesystem \<Rightarrow> tree \<Rightarrow> tree_node \<Rightarrow> int \<Rightarrow> error + tree \<times> tree_node"
  and generate_children ::
    "filesystem \<Rightarrow> tree \<Rightarrow> tree_node list \<Rightarrow> int \<Rightarrow> error + tree \<times> tree_node list"
where
  "generate_tree fs self node level =
     (if full self \<or> Some level = max_depth (args self) then Inr (self, node)
      else
        (case expand fs self node of
           Inl e \<Rightarrow> Inl e
         | Inr (self1, node1) \<Rightarrow>
             (case generate_children fs self1 (children node1) level of
                Inl e \<Rightarrow> Inl e
              | Inr (self2, cs) \<Rightarrow> Inr (self2, TreeNode (state node1) cs))))"
| "generate_children fs self [] level = Inr (self, [])"
| "generate_children fs self (child # rest) level =
     (case is_dir fs (state child) of
        Inl e \<Rightarrow> Inl e
      | Inr folder \<Rightarrow>
          (if folder then
             (case generate_tree fs self child (level + 1) of
                Inl e \<Rightarrow> Inl e
              | Inr (self1, child1) \<Rightarrow>
                  (case generate_children fs self1 rest level of
                     Inl e \<Rightarrow> Inl e
                   | Inr (self2, rest1) \<Rightarrow> Inr (self2, child1 # rest1)))
           else
             (case generate_children fs self rest level of
                Inl e \<Rightarrow> Inl e
              | Inr (self2, rest1) \<Rightarrow> Inr (self2, child # rest1))))"
  by pat_completeness auto

text \<open>
  \<open>__post_init__\<close>: the root node is created with no children and the tree is generated
  from it at level 0. The generated node becomes the root of the finished object.
\<close>

definition Tree :: "filesystem \<Rightarrow> path \<Rightarrow> args \<Rightarrow> error + tree" where
  "Tree fs dir ar =
     (let self = \<lparr>directory = dir, args = ar, root = TreeNode dir [],
                  dir_count = 0, file_count = 0, full = False\<rparr>
      in case generate_tree fs self (root self) 0 of
           Inl e \<Rightarrow> Inl e
         | Inr (self1, node1) \<Rightarrow> Inr (self1\<lparr>root := node1\<rparr>))"

subsection \<open>Text rendering\<close>

text \<open>
  The escape sequences of \<open>colorama\<close> are constants of that library; they are a parameter
  of the renderer. Text is a sequence of bytes: the box-drawing characters are written in
  UTF-8, as they reach the console.
\<close>

record colorama =
  Fore_BLUE :: string
  Fore_GREEN :: string
  Fore_YELLOW :: string
  Fore_RED :: string
  Style_RESET_ALL :: string

definition newline :: string where
  "newline = [CHR 0x0A]"

definition box_up_and_right :: string where
  "box_up_and_right = [CHR 0xE2, CHR 0x94, CHR 0x94]"

definition box_vertical_and_right :: string where
  "box_vertical_and_right = [CHR 0xE2, CHR 0x94, CHR 0x9C]"

definition box_horizontal :: string where
  "box_horizontal = [CHR 0xE2, CHR 0x94, CHR 0x80]"

definition box_vertical :: string where
  "box_vertical = [CHR 0xE2, CHR 0x94, CHR 0x82]"

definition last_connector :: string where
  "last_connector = box_up_and_right @ box_horizontal @ box_horizontal @ '' ''"

definition inner_connector :: string where
  "inner_connector = box_vertical_and_right @ box_horizontal @ box_horizontal @ '' ''"

definition last_indent :: string where
  "last_indent = ''    ''"

definition inner_indent :: string where
  "inner_indent = box_vertical @ ''   ''"

definition digit :: "nat \<Rightarrow> char" where
  "digit n = ''0123456789'' ! n"

function str_nat :: "nat \<Rightarrow> string" where
  "str_nat n = (if n < 10 then [digit n] else str_nat (n div 10) @ [digit (n mod 10)])"
  by pat_completeness auto
termination
  by (relation "measure id") auto

definition str_int :: "int \<Rightarrow> string" where
  "str_int k = (if k < 0 then ''-'' @ str_nat (nat (- k)) else str_nat (nat k))"

definition relative_to :: "path \<Rightarrow> path \<Rightarrow> error + path" where
  "relative_to p base =
     (if take (length base) p = base then Inr (drop (length base) p) else Inl ValueError)"

fun join :: "string \<Rightarrow> string list \<Rightarrow> string" where
  "join s [] = []"
| "join s [x] = x"
| "join s (x # y # ys) = x @ s @ join s (y # ys)"

definition str_path :: "filesystem \<Rightarrow> path \<Rightarrow> string" where
  "str_path fs p = (if p = [] then ''.'' else join (sep fs) p)"

definition label :: "filesystem \<Rightarrow> tree \<Rightarrow> tree_node \<Rightarrow> error + string" where
  "label fs self child =
     (if \<not> f (args self) then Inr (name (state child))
      else (case relative_to (state child) (directory self) of
              Inl e \<Rightarrow> Inl e
            | Inr p \<Rightarrow> Inr (str_path fs p)))"

text \<open>
  \<open>__format_tree\<close>: \<open>format_loop\<close> is the \<open>for i, child in enumerate(node.children)\<close>
  loop, given \<open>len(node.children)\<close>, the index reached and the children still to come.
\<close>

fun format_tree ::
    "filesystem \<Rightarrow> colorama \<Rightarrow> tree \<Rightarrow> tree_node \<Rightarrow> string \<Rightarrow> error + string"
  and format_loop ::
    "filesystem \<Rightarrow> colorama \<Rightarrow> tree \<Rightarrow> int \<Rightarrow> string \<Rightarrow> int \<Rightarrow> tree_node list \<Rightarrow> error + string"
where
  "format_tree fs col self (TreeNode p cs) branch =
     format_loop fs col self (int (length cs)) branch 0 cs"
| "format_loop fs col self n branch k [] = Inr []"
| "format_loop fs col self n branch k (child # rest) =
     (let item = branch @ (if k = n - 1 then last_connector else inner_connector)
      in case label fs self child of
           Inl e \<Rightarrow> Inl e
         | Inr nm \<Rightarrow>
             (case is_file fs (state child) of
                Inl e \<Rightarrow> Inl e
              | Inr file \<Rightarrow>
                  (let color = (if file then Fore_GREEN col else Fore_YELLOW col);
                       line = item @ color @ nm @ Style_RESET_ALL col @ newline;
                       new_branch = branch @ (if k = n - 1 then last_indent else inner_indent)
                   in case format_tree fs col self child new_branch of
                        Inl e \<Rightarrow> Inl e
                      | Inr sub \<Rightarrow>
                          (case format_loop fs col self n branch (k + 1) rest of
                             Inl e \<Rightarrow> Inl e
                           | Inr others \<Rightarrow> Inr (line @ sub @ others)))))"

definition tree_str :: "filesystem \<Rightarrow> colorama \<Rightarrow> tree \<Rightarrow> error + string" where
  "tree_str fs col self =
     (let header = Fore_BLUE col @ name (state (root self)) @ Style_RESET_ALL col @ newline
      in case format_tree fs col self (root self) [] of
           Inl e \<Rightarrow> Inl e
         | Inr body \<Rightarrow>
             (let footer0 = newline @ Fore_YELLOW col @ ''Directories: ''
                              @ str_int (dir_count self) @ '', '';
                  footer1 = footer0 @ Fore_GREEN col @ ''Files: ''
                              @ str_int (file_count self) @ Style_RESET_ALL col;
                  footer = (if full self
                            then footer1 @ Fore_RED col @ newline
                                   @ ''Output limited to 200 elements.'' @ Style_RESET_ALL col
                            else footer1)
              in Inr (header @ body @ footer)))"

subsection \<open>XML output\<close>

datatype element = Element (tag: string) (attrib: "(string \<times> string) list") (elems: "element list")

definition append :: "element \<Rightarrow> element \<Rightarrow> element" where
  "append e child = Element (tag e) (attrib e) (elems e @ [child])"

text \<open>
  \<open>build_xml_element\<close>; \<open>build_children\<close> is its loop over the children of the node,
  given the element built so far.
\<close>

fun build_xml_element :: "filesystem \<Rightarrow> tree_node \<Rightarrow> error + element"
  and build_children :: "filesystem \<Rightarrow> tree_node list \<Rightarrow> element \<Rightarrow> error + element"
where
  "build_xml_element fs (TreeNode p cs) =
     (case is_dir fs p of
        Inl e \<Rightarrow> Inl e
      | Inr is_folder \<Rightarrow>
          (let nm = (if is_folder then name p @ ''/'' else name p);
               element = Element ''node'' [(''name'', nm)] []
           in build_children fs cs element))"
| "build_children fs [] element = Inr element"
| "build_children fs (child # rest) element =
     (case build_xml_element fs child of
        Inl e \<Rightarrow> Inl e
      | Inr child_element \<Rightarrow> build_children fs rest (append element child_element))"

text \<open>
  \<open>save_xml\<close> hands the element built from the root to the XML library, which serialises
  and pretty-prints it (or raises), and writes the text to the file: the result is the file
  written and its content. The library's serialiser is a parameter.
\<close>

definition save_xml ::
    "filesystem \<Rightarrow> (element \<Rightarrow> error + string) \<Rightarrow> tree \<Rightarrow> path \<Rightarrow> error + path \<times> string" where
  "save_xml fs toprettyxml self file_path =
     (case build_xml_element fs (root self) of
        Inl e \<Rightarrow> Inl e
      | Inr tree_element \<Rightarrow>
          (case toprettyxml tree_element of
             Inl e \<Rightarrow> Inl e
           | Inr formated_xml \<Rightarrow> Inr (file_path, formated_xml)))"

section \<open>Notions used to state properties\<close>

text \<open>All nodes of a tree in pre-order, and each node's depth below a node at depth \<open>n\<close>.\<close>

fun nodes :: "tree_node \<Rightarrow> tree_node list" where
  "nodes (TreeNode p cs) = TreeNode p cs # concat (map nodes cs)"

fun depths :: "nat \<Rightarrow> tree_node \<Rightarrow> nat list" where
  "depths n (TreeNode p cs) = n # concat (map (depths (Suc n)) cs)"

fun elements :: "element \<Rightarrow> element list" where
  "elements (Element t at es) = Element t at es # concat (map elements es)"

text \<open>The values of a list of results, or the first error in it.\<close>

fun collect_results :: "(error + 'a) list \<Rightarrow> error + 'a list" where
  "collect_results [] = Inr []"
| "collect_results (x # xs) =
     (case x of
        Inl e \<Rightarrow> Inl e
      | Inr v \<Rightarrow> (case collect_results xs of Inl e \<Rightarrow> Inl e | Inr vs \<Rightarrow> Inr (v # vs)))"

text \<open>
  A builder that appends each included entry instead of inserting it by child count;
  the rest is as in \<open>expand\<close> and \<open>generate_tree\<close>.
\<close>

fun expand_loop_append ::
    "filesystem \<Rightarrow> path list \<Rightarrow> tree \<Rightarrow> tree_node \<Rightarrow> error option \<times> tree \<times> tree_node" where
  "expand_loop_append fs [] self node = (None, self, node)"
| "expand_loop_append fs (child # rest) self node =
     (case should_include fs self child of
        Inl e \<Rightarrow> (Some e, self, node)
      | Inr included \<Rightarrow>
          (if \<not> included then expand_loop_append fs rest self node
           else
             (case increment_counts fs self child of
                Inl e \<Rightarrow> (Some e, self, node)
              | Inr self1 \<Rightarrow>
                  (if full self1 then (None, self1, node)
                   else expand_loop_append fs rest self1
                          (TreeNode (state node) (children node @ [TreeNode child []]))))))"

definition expand_append :: "filesystem \<Rightarrow> tree \<Rightarrow> tree_node \<Rightarrow> error + tree \<times> tree_node" where
  "expand_append fs self node =
     (case iterdir fs (state node) of
        Inl e \<Rightarrow> (if e = PermissionError then Inr (self, node) else Inl e)
      | Inr entries \<Rightarrow>
          (case expand_loop_append fs entries self node of
             (None, self1, node1) \<Rightarrow> Inr (self1, node1)
           | (Some e, self1, node1) \<Rightarrow>
               (if e = PermissionError then Inr (self1, node1) else Inl e)))"

function generate_tree_append ::
    "filesystem \<Rightarrow> tree \<Rightarrow> tree_node \<Rightarrow> int \<Rightarrow> error + tree \<times> tree_node"
  and generate_children_append ::
    "filesystem \<Rightarrow> tree \<Rightarrow> tree_node list \<Rightarrow> int \<Rightarrow> error + tree \<times> tree_node list"
where
  "generate_tree_append fs self node level =
     (if full self \<or> Some level = max_depth (args self) then Inr (self, node)
      else
        (case expand_append fs self node of
           Inl e \<Rightarrow> Inl e
         | Inr (self1, node1) \<Rightarrow>
             (case generate_children_append fs self1 (children node1) level of
                Inl e \<Rightarrow> Inl e
              | Inr (self2, cs) \<Rightarrow> Inr (self2, TreeNode (state node1) cs))))"
| "generate_children_append fs self [] level = Inr (self, [])"
| "generate_children_append fs self (child # rest) level =
     (case is_dir fs (state child) of
        Inl e \<Rightarrow> Inl e
      | Inr folder \<Rightarrow>
          (if folder then
             (case generate_tree_append fs self child (level + 1) of
                Inl e \<Rightarrow> Inl e
              | Inr (self1, child1) \<Rightarrow>
                  (case generate_children_append fs self1 rest level of
                     Inl e \<Rightarrow> Inl e
                   | Inr (self2, rest1) \<Rightarrow> Inr (self2, child1 # rest1)))
           else
             (case generate_children_append fs self rest level of
                Inl e \<Rightarrow> Inl e
              | Inr (self2, rest1) \<Rightarrow> Inr (self2, child # rest1))))"
  by pat_completeness auto

definition Tree_append :: "filesystem \<Rightarrow> path \<Rightarrow> args \<Rightarrow> error + tree" where
  "Tree_append fs dir ar =
     (let self = \<lparr>directory = dir, args = ar, root = TreeNode dir [],
                  dir_count = 0, file_count = 0, full = False\<rparr>
      in case generate_tree_append fs self (root self) 0 of
           Inl e \<Rightarrow> Inl e
         | Inr (self1, node1) \<Rightarrow> Inr (self1\<lparr>root := node1\<rparr>))"

text \<open>
  A node's children are in enumeration order when their paths are an initial part of the
  entries of the node's directory that pass the filter, in the order of the listing; a
  node whose directory cannot be listed has no children.
\<close>

definition enumeration_order :: "filesystem \<Rightarrow> tree \<Rightarrow> tree_node \<Rightarrow> bool" where
  "enumeration_order fs self node =
     (case iterdir fs (state node) of
        Inl e \<Rightarrow> children node = []
      | Inr entries \<Rightarrow>
          map state (children node)
            = take (length (children node))
                (filter (\<lambda>entry. should_include fs self entry = Inr True) entries))"

text \<open>A path for which the status query answers.\<close>

definition known :: "filesystem \<Rightarrow> path \<Rightarrow> bool" where
  "known fs p = (case kind_of fs p of Inl e \<Rightarrow> False | Inr k \<Rightarrow> True)"

text \<open>
  The diagram as the design describes it: one line per child, the connector and the
  extension of the branch prefix chosen by whether the child is the last of its siblings.
  \<open>lab\<close> gives the highlighted label of a node.
\<close>

fun diagram :: "(tree_node \<Rightarrow> string) \<Rightarrow> string \<Rightarrow> tree_node list \<Rightarrow> string" where
  "diagram lab branch [] = []"
| "diagram lab branch [TreeNode p cs] =
     branch @ last_connector @ lab (TreeNode p cs) @ newline
       @ diagram lab (branch @ last_indent) cs"
| "diagram lab branch (TreeNode p cs # sibling # siblings) =
     branch @ inner_connector @ lab (TreeNode p cs) @ newline
       @ diagram lab (branch @ inner_indent) cs
       @ diagram lab branch (sibling # siblings)"

definition highlighted :: "filesystem \<Rightarrow> colorama \<Rightarrow> tree \<Rightarrow> tree_node \<Rightarrow> string" where
  "highlighted fs col self child =
     (if is_file fs (state child) = Inr True then Fore_GREEN col else Fore_YELLOW col)
       @ (case label fs self child of Inl e \<Rightarrow> [] | Inr nm \<Rightarrow> nm)
       @ Style_RESET_ALL col"

text \<open>The counters and the flag of a tree that is being built or has been built.\<close>

definition cap_inv :: "tree \<Rightarrow> bool" where
  "cap_inv self = (total self \<le> 200 \<and> (full self \<longleftrightarrow> total self = 200))"

section \<open>Example file systems\<close>

text \<open>
  A directory \<open>tmp\<close> with \<open>folder1\<close> (two files and a hidden file) and \<open>folder2\<close>
  (a subfolder with one file).
\<close>

definition example_fs :: filesystem where
  "example_fs = \<lparr>
     kind_of = (\<lambda>p. Inr (
       if p \<in> set [[''tmp''], [''tmp'', ''folder1''], [''tmp'', ''folder2''],
                    [''tmp'', ''folder2'', ''subfolder1'']] then Directory
       else if p \<in> set [[''tmp'', ''folder1'', ''file1.txt''],
                    [''tmp'', ''folder1'', ''file2.txt''],
                    [''tmp'', ''folder1'', ''.hidden''],
                    [''tmp'', ''folder2'', ''subfolder1'', ''file3.txt'']] then RegularFile
       else Other)),
     listdir = (\<lambda>p.
       if p = [''tmp''] then Inr [''folder1'', ''folder2'']
       else if p = [''tmp'', ''folder1''] then Inr [''file1.txt'', ''file2.txt'', ''.hidden'']
       else if p = [''tmp'', ''folder2''] then Inr [''subfolder1'']
       else if p = [''tmp'', ''folder2'', ''subfolder1''] then Inr [''file3.txt'']
       else Inl NotADirectoryError),
     sep = ''/'' \<rparr>"

definition default_args :: args where
  "default_args = \<lparr>a = False, d = False, f = False, max_depth = None, i = False\<rparr>"

definition example_tree :: tree where
  "example_tree = \<lparr>directory = [''tmp''], args = default_args,
     root = TreeNode [''tmp'']
           [TreeNode [''tmp'', ''folder1'']
             [TreeNode [''tmp'', ''folder1'', ''file1.txt''] [],
              TreeNode [''tmp'', ''folder1'', ''file2.txt''] []],
            TreeNode [''tmp'', ''folder2'']
             [TreeNode [''tmp'', ''folder2'', ''subfolder1'']
               [TreeNode [''tmp'', ''folder2'', ''subfolder1'', ''file3.txt''] []]]],
     dir_count = 3, file_count = 3, full = False\<rparr>"

text \<open>The tree built from the example with \<open>max_depth = 1\<close>.\<close>

definition depth1_tree :: tree where
  "depth1_tree = \<lparr>directory = [''tmp''], args = default_args\<lparr>max_depth := Some 1\<rparr>,
     root = TreeNode [''tmp'']
           [TreeNode [''tmp'', ''folder1''] [], TreeNode [''tmp'', ''folder2''] []],
     dir_count = 2, file_count = 0, full = False\<rparr>"

text \<open>A tree object whose counters have reached the cap, and one a single entry short of it.\<close>

definition capped_tree :: tree where
  "capped_tree = example_tree\<lparr>dir_count := 120, file_count := 80, full := True\<rparr>"

definition brim_tree :: tree where
  "brim_tree = example_tree\<lparr>dir_count := 120, file_count := 79\<rparr>"

text \<open>
  A directory \<open>tmp\<close> with a directory \<open>secret\<close> that may not be listed and a directory
  \<open>open\<close> with one file; and the same where listing \<open>secret\<close> fails with another error.
\<close>

definition locked_fs :: filesystem where
  "locked_fs = \<lparr>
     kind_of = (\<lambda>p. Inr (
       if p \<in> set [[''tmp''], [''tmp'', ''secret''], [''tmp'', ''open'']] then Directory
       else if p = [''tmp'', ''open'', ''file.txt''] then RegularFile
       else Other)),
     listdir = (\<lambda>p.
       if p = [''tmp''] then Inr [''secret'', ''open'']
       else if p = [''tmp'', ''secret''] then Inl PermissionError
       else if p = [''tmp'', ''open''] then Inr [''file.txt'']
       else Inl NotADirectoryError),
     sep = ''/'' \<rparr>"

definition locked_tree :: tree where
  "locked_tree = \<lparr>directory = [''tmp''], args = default_args,
     root = TreeNode [''tmp'']
           [TreeNode [''tmp'', ''secret''] [],
            TreeNode [''tmp'', ''open''] [TreeNode [''tmp'', ''open'', ''file.txt''] []]],
     dir_count = 2, file_count = 1, full = False\<rparr>"

definition broken_fs :: filesystem where
  "broken_fs = locked_fs\<lparr>listdir := (\<lambda>p.
       if p = [''tmp'', ''secret''] then Inl OSError else listdir locked_fs p)\<rparr>"

text \<open>A directory \<open>tmp\<close> that holds a FIFO (or a dangling symbolic link) and nothing else.\<close>

definition special_fs :: filesystem where
  "special_fs = \<lparr>
     kind_of = (\<lambda>p. Inr (if p = [''tmp''] then Directory else Other)),
     listdir = (\<lambda>p. if p = [''tmp''] then Inr [''pipe''] else Inl NotADirectoryError),
     sep = ''/'' \<rparr>"

text \<open>
  A directory \<open>tmp\<close> with 210 empty directories \<open>folder0\<close>, \<open>folder1\<close>, and so on, and the
  tree built from it: the first 199 of them, with the counters at the cap.
\<close>

definition many_names :: "string list" where
  "many_names = map (\<lambda>n. ''folder'' @ str_nat n) [0..<210]"

definition many_fs :: filesystem where
  "many_fs = \<lparr>
     kind_of = (\<lambda>p. Inr (
       if p = [''tmp''] \<or> p \<in> set (map (\<lambda>n. [''tmp'', n]) many_names) then Directory
       else Other)),
     listdir = (\<lambda>p.
       if p = [''tmp''] then Inr many_names
       else if p \<in> set (map (\<lambda>n. [''tmp'', n]) many_names) then Inr []
       else Inl NotADirectoryError),
     sep = ''/'' \<rparr>"

definition many_tree :: tree where
  "many_tree = \<lparr>directory = [''tmp''], args = default_args,
     root = TreeNode [''tmp''] (map (\<lambda>n. TreeNode [''tmp'', n] []) (take 199 many_names)),
     dir_count = 200, file_count = 0, full = True\<rparr>"

text \<open>
  A directory \<open>tmp\<close> with a file, then a link whose target lies in a directory that may
  not be searched, so that the status query on it fails with a permission error, then
  another file; and the same where the query fails with another error.
\<close>

definition linked_fs :: filesystem where
  "linked_fs = \<lparr>
     kind_of = (\<lambda>p.
       if p = [''tmp''] then Inr Directory
       else if p = [''tmp'', ''link''] then Inl PermissionError
       else if p \<in> set [[''tmp'', ''notes.txt''], [''tmp'', ''more.txt'']] then Inr RegularFile
       else Inr Other),
     listdir = (\<lambda>p.
       if p = [''tmp''] then Inr [''notes.txt'', ''link'', ''more.txt'']
       else Inl NotADirectoryError),
     sep = ''/'' \<rparr>"

definition linked_tree :: tree where
  "linked_tree = \<lparr>directory = [''tmp''], args = default_args,
     root = TreeNode [''tmp''] [TreeNode [''tmp'', ''notes.txt''] []],
     dir_count = 0, file_count = 1, full = False\<rparr>"

definition stale_fs :: filesystem where
  "stale_fs = linked_fs\<lparr>kind_of := (\<lambda>p.
       if p = [''tmp'', ''link''] then Inl OSError else kind_of linked_fs p)\<rparr>"

text \<open>
  A file system in which every path is a directory with the one entry \<open>d\<close> (as a link
  to the directory itself gives), the chain of \<open>n\<close> nodes below a node, and the tree
  built from that file system.
\<close>

definition chain_fs :: filesystem where
  "chain_fs = \<lparr>kind_of = (\<lambda>p. Inr Directory), listdir = (\<lambda>p. Inr [''d'']), sep = ''/''\<rparr>"

fun chain_node :: "nat \<Rightarrow> path \<Rightarrow> tree_node" where
  "chain_node 0 p = TreeNode p []"
| "chain_node (Suc n) p = TreeNode p [chain_node n (p @ [''d''])]"

definition chain_tree :: tree where
  "chain_tree = \<lparr>directory = [''tmp''], args = default_args,
     root = chain_node 199 [''tmp''], dir_count = 200, file_count = 0, full = True\<rparr>"

text \<open>Highlighting switched off: every escape sequence is empty.\<close>

definition plain_colors :: colorama where
  "plain_colors = \<lparr>Fore_BLUE = [], Fore_GREEN = [], Fore_YELLOW = [], Fore_RED = [],
     Style_RESET_ALL = []\<rparr>"

section \<open>Termination of the tree generation\<close>

text \<open>
  The generation terminates on every file system, also one with cycles or without end:
  each node that is expanded further was counted when it was created, and nothing is
  created once the counters reach 200.
\<close>

lemma increment_counts_total:
  "increment_counts fs self c = Inr s \<Longrightarrow> total s = total self + 1"
  by (auto simp add: increment_counts_def total_def Let_def split: sum.splits)

lemma increment_counts_full:
  "increment_counts fs self c = Inr s \<Longrightarrow> full s \<longleftrightarrow> full self \<or> 199 \<le> total self"
  by (auto simp add: increment_counts_def total_def Let_def split: sum.splits if_splits)

lemma expand_loop_Cons_cases [consumes 1, case_names raise_filter skip raise_count trip add]:
  assumes "expand_loop fs (c # cs) self node = (r, self1, node1)"
  obtains
    e where "should_include fs self c = Inl e" "r = Some e" "self1 = self" "node1 = node"
  | "should_include fs self c = Inr False" "expand_loop fs cs self node = (r, self1, node1)"
  | e where "should_include fs self c = Inr True" "increment_counts fs self c = Inl e"
      "r = Some e" "self1 = self" "node1 = node"
  | "should_include fs self c = Inr True" "increment_counts fs self c = Inr self1"
      "full self1" "r = None" "node1 = node"
  | s where "should_include fs self c = Inr True" "increment_counts fs self c = Inr s"
      "\<not> full s" "expand_loop fs cs s (add_child node (TreeNode c [])) = (r, self1, node1)"
  using assms by (auto split: sum.splits if_splits)

lemma expand_Inr_cases [consumes 1, case_names denied listed]:
  assumes "expand fs self node = Inr (self1, node1)"
  obtains
    "iterdir fs (state node) = Inl PermissionError" "self1 = self" "node1 = node"
  | entries r where "iterdir fs (state node) = Inr entries"
      "expand_loop fs entries self node = (r, self1, node1)"
  using assms
  by (auto simp add: expand_def split: sum.splits if_splits option.splits prod.splits)

lemma remaining_increment:
  "increment_counts fs self c = Inr s \<Longrightarrow> \<not> full self \<Longrightarrow> \<not> full s \<Longrightarrow>
     remaining s < remaining self"
  using increment_counts_total[of fs self c s] increment_counts_full[of fs self c s]
  by (auto simp add: remaining_def)

lemma expand_loop_remaining:
  "\<not> full self \<Longrightarrow> expand_loop fs cs self node = (r, self1, node1) \<Longrightarrow>
     remaining self1 < remaining self \<or>
     (remaining self1 \<le> remaining self \<and> children node1 = children node)"
proof (induction cs arbitrary: self node)
  case Nil
  then show ?case by simp
next
  case (Cons c cs)
  from Cons.prems(2) show ?case
  proof (cases rule: expand_loop_Cons_cases)
    case (raise_filter e)
    then show ?thesis by simp
  next
    case skip
    from Cons.IH[OF Cons.prems(1) skip(2)] show ?thesis .
  next
    case (raise_count e)
    then show ?thesis by simp
  next
    case trip
    then show ?thesis by (simp add: remaining_def)
  next
    case (add s)
    from remaining_increment[OF add(2) Cons.prems(1) add(3)] Cons.IH[OF add(3) add(4)]
    show ?thesis by auto
  qed
qed

lemma expand_remaining:
  assumes "\<not> full self" and "expand fs self node = Inr (self1, node1)"
  shows "remaining self1 < remaining self \<or>
     (remaining self1 \<le> remaining self \<and> children node1 = children node)"
  using assms(2)
proof (cases rule: expand_Inr_cases)
  case denied
  then show ?thesis by simp
next
  case (listed entries r)
  from expand_loop_remaining[OF assms(1) listed(2)] show ?thesis .
qed

lemma not_False: "\<not> False"
  by simp

lemma generate_dom_remaining:
  "generate_tree_generate_children_dom (Inl (fs, self, node, level)) \<Longrightarrow>
     generate_tree fs self node level = Inr (self', node') \<Longrightarrow> remaining self' \<le> remaining self"
  "generate_tree_generate_children_dom (Inr (fs, self, cs, level)) \<Longrightarrow>
     generate_children fs self cs level = Inr (self', cs') \<Longrightarrow> remaining self' \<le> remaining self"
proof (induction fs self node level and fs self cs level arbitrary: self' node' and self' cs'
    rule: generate_tree_generate_children.pinduct)
  case (1 fs self node level)
  show ?case
  proof (cases "full self \<or> Some level = max_depth (args self)")
    case True
    with 1 show ?thesis by (simp add: generate_tree.psimps)
  next
    case False
    with "1.prems" "1.hyps" obtain self1 node1 cs where
      e: "expand fs self node = Inr (self1, node1)" and
      g: "generate_children fs self1 (children node1) level = Inr (self', cs)"
      by (auto simp add: generate_tree.psimps split: sum.splits)
    from False e have "remaining self1 \<le> remaining self"
      using expand_remaining by fastforce
    moreover from "1.IH"[OF False e refl g] have "remaining self' \<le> remaining self1" .
    ultimately show ?thesis by simp
  qed
next
  case (2 fs self level)
  then show ?case by (simp add: generate_children.psimps)
next
  case (3 fs self child rest level)
  from "3.prems" "3.hyps" obtain folder where d: "is_dir fs (state child) = Inr folder"
    by (auto simp add: generate_children.psimps split: sum.splits)
  show ?case
  proof (cases folder)
    case True
    with d "3.prems" "3.hyps" obtain self1 child1 rest1 where
      g: "generate_tree fs self child (level + 1) = Inr (self1, child1)" and
      r: "generate_children fs self1 rest level = Inr (self', rest1)"
      by (auto simp add: generate_children.psimps split: sum.splits)
    from d True have d1: "is_dir fs (state child) = Inr True" by simp
    from "3.IH"(1)[OF d1 TrueI g] have "remaining self1 \<le> remaining self" .
    moreover from "3.IH"(2)[OF d1 TrueI g refl r] have "remaining self' \<le> remaining self1" .
    ultimately show ?thesis by simp
  next
    case False
    with d "3.prems" "3.hyps" obtain rest1 where
      r: "generate_children fs self rest level = Inr (self', rest1)"
      by (auto simp add: generate_children.psimps split: sum.splits)
    from d False have d0: "is_dir fs (state child) = Inr False" by simp
    from "3.IH"(3)[OF d0 not_False r] show ?thesis .
  qed
qed

termination generate_tree
proof (relation "inv_image (less_than <*lex*> less_than)
    (\<lambda>x. case x of
       Inl (fs, self, node, level) \<Rightarrow> (remaining self, size node)
     | Inr (fs, self, cs, level) \<Rightarrow> (remaining self, size_list size cs))", goal_cases)
  case 1
  then show ?case by (simp add: wf_lex_prod)
next
  case (2 fs self node level x2 self1 node1)
  then have "remaining self1 < remaining self \<or>
     (remaining self1 \<le> remaining self \<and> children node1 = children node)"
    using expand_remaining by blast
  moreover have "size_list size (children node) < size node"
    by (cases node) simp
  ultimately show ?case by auto
next
  case 3
  then show ?case by simp
next
  case (4 fs self child rest level folder x2 self1 child1)
  then have "remaining self1 \<le> remaining self"
    using generate_dom_remaining(1) by blast
  then show ?case by auto
next
  case 5
  then show ?case by simp
qed

lemma expand_loop_append_Cons_cases [consumes 1, case_names raise_filter skip raise_count trip add]:
  assumes "expand_loop_append fs (c # cs) self node = (r, self1, node1)"
  obtains
    e where "should_include fs self c = Inl e" "r = Some e" "self1 = self" "node1 = node"
  | "should_include fs self c = Inr False" "expand_loop_append fs cs self node = (r, self1, node1)"
  | e where "should_include fs self c = Inr True" "increment_counts fs self c = Inl e"
      "r = Some e" "self1 = self" "node1 = node"
  | "should_include fs self c = Inr True" "increment_counts fs self c = Inr self1"
      "full self1" "r = None" "node1 = node"
  | s where "should_include fs self c = Inr True" "increment_counts fs self c = Inr s"
      "\<not> full s" "expand_loop_append fs cs s (TreeNode (state node) (children node @ [TreeNode c []])) = (r, self1, node1)"
  using assms by (auto split: sum.splits if_splits)

lemma expand_append_Inr_cases [consumes 1, case_names denied listed]:
  assumes "expand_append fs self node = Inr (self1, node1)"
  obtains
    "iterdir fs (state node) = Inl PermissionError" "self1 = self" "node1 = node"
  | entries r where "iterdir fs (state node) = Inr entries"
      "expand_loop_append fs entries self node = (r, self1, node1)"
  using assms
  by (auto simp add: expand_append_def split: sum.splits if_splits option.splits prod.splits)

lemma expand_loop_append_remaining:
  "\<not> full self \<Longrightarrow> expand_loop_append fs cs self node = (r, self1, node1) \<Longrightarrow>
     remaining self1 < remaining self \<or>
     (remaining self1 \<le> remaining self \<and> children node1 = children node)"
proof (induction cs arbitrary: self node)
  case Nil
  then show ?case by simp
next
  case (Cons c cs)
  from Cons.prems(2) show ?case
  proof (cases rule: expand_loop_append_Cons_cases)
    case (raise_filter e)
    then show ?thesis by simp
  next
    case skip
    from Cons.IH[OF Cons.prems(1) skip(2)] show ?thesis .
  next
    case (raise_count e)
    then show ?thesis by simp
  next
    case trip
    then show ?thesis by (simp add: remaining_def)
  next
    case (add s)
    from remaining_increment[OF add(2) Cons.prems(1) add(3)] Cons.IH[OF add(3) add(4)]
    show ?thesis by auto
  qed
qed

lemma expand_append_remaining:
  assumes "\<not> full self" and "expand_append fs self node = Inr (self1, node1)"
  shows "remaining self1 < remaining self \<or>
     (remaining self1 \<le> remaining self \<and> children node1 = children node)"
  using assms(2)
proof (cases rule: expand_append_Inr_cases)
  case denied
  then show ?thesis by simp
next
  case (listed entries r)
  from expand_loop_append_remaining[OF assms(1) listed(2)] show ?thesis .
qed

lemma generate_append_dom_remaining:
  "generate_tree_append_generate_children_append_dom (Inl (fs, self, node, level)) \<Longrightarrow>
     generate_tree_append fs self node level = Inr (self', node') \<Longrightarrow> remaining self' \<le> remaining self"
  "generate_tree_append_generate_children_append_dom (Inr (fs, self, cs, level)) \<Longrightarrow>
     generate_children_append fs self cs level = Inr (self', cs') \<Longrightarrow> remaining self' \<le> remaining self"
proof (induction fs self node level and fs self cs level arbitrary: self' node' and self' cs'
    rule: generate_tree_append_generate_children_append.pinduct)
  case (1 fs self node level)
  show ?case
  proof (cases "full self \<or> Some level = max_depth (args self)")
    case True
    with 1 show ?thesis by (simp add: generate_tree_append.psimps)
  next
    case False
    with "1.prems" "1.hyps" obtain self1 node1 cs where
      e: "expand_append fs self node = Inr (self1, node1)" and
      g: "generate_children_append fs self1 (children node1) level = Inr (self', cs)"
      by (auto simp add: generate_tree_append.psimps split: sum.splits)
    from False e have "remaining self1 \<le> remaining self"
      using expand_append_remaining by fastforce
    moreover from "1.IH"[OF False e refl g] have "remaining self' \<le> remaining self1" .
    ultimately show ?thesis by simp
  qed
next
  case (2 fs self level)
  then show ?case by (simp add: generate_children_append.psimps)
next
  case (3 fs self child rest level)
  from "3.prems" "3.hyps" obtain folder where d: "is_dir fs (state child) = Inr folder"
    by (auto simp add: generate_children_append.psimps split: sum.splits)
  show ?case
  proof (cases folder)
    case True
    with d "3.prems" "3.hyps" obtain self1 child1 rest1 where
      g: "generate_tree_append fs self child (level + 1) = Inr (self1, child1)" and
      r: "generate_children_append fs self1 rest level = Inr (self', rest1)"
      by (auto simp add: generate_children_append.psimps split: sum.splits)
    from d True have d1: "is_dir fs (state child) = Inr True" by simp
    from "3.IH"(1)[OF d1 TrueI g] have "remaining self1 \<le> remaining self" .
    moreover from "3.IH"(2)[OF d1 TrueI g refl r] have "remaining self' \<le> remaining self1" .
    ultimately show ?thesis by simp
  next
    case False
    with d "3.prems" "3.hyps" obtain rest1 where
      r: "generate_children_append fs self rest level = Inr (self', rest1)"
      by (auto simp add: generate_children_append.psimps split: sum.splits)
    from d False have d0: "is_dir fs (state child) = Inr False" by simp
    from "3.IH"(3)[OF d0 not_False r] show ?thesis .
  qed
qed

termination generate_tree_append
proof (relation "inv_image (less_than <*lex*> less_than)
    (\<lambda>x. case x of
       Inl (fs, self, node, level) \<Rightarrow> (remaining self, size node)
     | Inr (fs, self, cs, level) \<Rightarrow> (remaining self, size_list size cs))", goal_cases)
  case 1
  then show ?case by (simp add: wf_lex_prod)
next
  case (2 fs self node level x2 self1 node1)
  then have "remaining self1 < remaining self \<or>
     (remaining self1 \<le> remaining self \<and> children node1 = children node)"
    using expand_append_remaining by blast
  moreover have "size_list size (children node) < size node"
    by (cases node) simp
  ultimately show ?case by auto
next
  case 3
  then show ?case by simp
next
  case (4 fs self child rest level folder x2 self1 child1)
  then have "remaining self1 \<le> remaining self"
    using generate_append_dom_remaining(1) by blast
  then show ?case by auto
next
  case 5
  then show ?case by simp
qed

declare generate_tree.simps [simp del] generate_tree_append.simps [simp del]

section \<open>Properties of the builder\<close>

lemma generate_tree_Inr_cases [consumes 1, case_names stop go]:
  assumes "generate_tree fs self node level = Inr (self', node')"
  obtains
    "full self \<or> Some level = max_depth (args self)" "self' = self" "node' = node"
  | self1 node1 cs where "\<not> (full self \<or> Some level = max_depth (args self))"
      "expand fs self node = Inr (self1, node1)"
      "generate_children fs self1 (children node1) level = Inr (self', cs)"
      "node' = TreeNode (state node1) cs"
  using assms by (auto simp add: generate_tree.simps split: sum.splits if_splits)

lemma generate_children_Inr_cases [consumes 1, case_names dir other]:
  assumes "generate_children fs self (child # rest) level = Inr (self', cs')"
  obtains
    self1 child1 rest1 where "is_dir fs (state child) = Inr True"
      "generate_tree fs self child (level + 1) = Inr (self1, child1)"
      "generate_children fs self1 rest level = Inr (self', rest1)"
      "cs' = child1 # rest1"
  | rest1 where "is_dir fs (state child) = Inr False"
      "generate_children fs self rest level = Inr (self', rest1)"
      "cs' = child # rest1"
  using assms by (auto split: sum.splits if_splits)

lemma increment_counts_args:
  "increment_counts fs self c = Inr s \<Longrightarrow> args s = args self"
  by (auto simp add: increment_counts_def Let_def split: sum.splits)

lemma increment_counts_keeps_directory:
  "increment_counts fs self c = Inr s \<Longrightarrow> directory s = directory self"
  by (auto simp add: increment_counts_def Let_def split: sum.splits)

lemma increment_counts_known:
  "increment_counts fs self c = Inr s \<Longrightarrow> \<exists>k. kind_of fs c = Inr k"
  by (auto simp add: increment_counts_def is_dir_def split: sum.splits)

lemma state_add_child: "state (add_child node child) = state node"
  by (simp add: add_child_def)

lemma expand_loop_args:
  "expand_loop fs cs self node = (r, self1, node1) \<Longrightarrow> args self1 = args self"
proof (induction cs arbitrary: self node)
  case Nil
  then show ?case by simp
next
  case (Cons c cs)
  from Cons.prems show ?case
  proof (cases rule: expand_loop_Cons_cases)
    case skip
    from Cons.IH[OF skip(2)] show ?thesis .
  next
    case trip
    then show ?thesis by (simp add: increment_counts_args)
  next
    case (add s)
    from Cons.IH[OF add(4)] increment_counts_args[OF add(2)] show ?thesis by simp
  qed simp_all
qed

lemma expand_args:
  assumes "expand fs self node = Inr (self1, node1)"
  shows "args self1 = args self"
  using assms
proof (cases rule: expand_Inr_cases)
  case denied
  then show ?thesis by simp
next
  case (listed entries r)
  then show ?thesis using expand_loop_args by blast
qed

lemma expand_loop_directory:
  "expand_loop fs cs self node = (r, self1, node1) \<Longrightarrow> directory self1 = directory self"
proof (induction cs arbitrary: self node)
  case Nil
  then show ?case by simp
next
  case (Cons c cs)
  from Cons.prems show ?case
  proof (cases rule: expand_loop_Cons_cases)
    case skip
    from Cons.IH[OF skip(2)] show ?thesis .
  next
    case trip
    then show ?thesis by (simp add: increment_counts_keeps_directory)
  next
    case (add s)
    from Cons.IH[OF add(4)] increment_counts_keeps_directory[OF add(2)] show ?thesis by simp
  qed simp_all
qed

lemma expand_directory:
  assumes "expand fs self node = Inr (self1, node1)"
  shows "directory self1 = directory self"
  using assms
proof (cases rule: expand_Inr_cases)
  case denied
  then show ?thesis by simp
next
  case (listed entries r)
  then show ?thesis using expand_loop_directory by blast
qed

lemma expand_loop_state:
  "expand_loop fs cs self node = (r, self1, node1) \<Longrightarrow> state node1 = state node"
proof (induction cs arbitrary: self node)
  case Nil
  then show ?case by simp
next
  case (Cons c cs)
  from Cons.prems show ?case
  proof (cases rule: expand_loop_Cons_cases)
    case skip
    from Cons.IH[OF skip(2)] show ?thesis .
  next
    case (add s)
    from Cons.IH[OF add(4)] show ?thesis by (simp add: state_add_child)
  qed simp_all
qed

lemma expand_state:
  assumes "expand fs self node = Inr (self1, node1)"
  shows "state node1 = state node"
  using assms
proof (cases rule: expand_Inr_cases)
  case denied
  then show ?thesis by simp
next
  case (listed entries r)
  then show ?thesis using expand_loop_state by blast
qed

lemma generate_args:
  "generate_tree fs self node level = Inr (self', node') \<Longrightarrow> args self' = args self"
  "generate_children fs self cs level = Inr (self', cs') \<Longrightarrow> args self' = args self"
proof (induction fs self node level and fs self cs level arbitrary: self' node' and self' cs'
    rule: generate_tree_generate_children.induct)
  case (1 fs self node level)
  from "1.prems" show ?case
  proof (cases rule: generate_tree_Inr_cases)
    case stop
    then show ?thesis by simp
  next
    case (go self1 node1 cs)
    from "1.IH"[OF go(1,2) refl go(3)] expand_args[OF go(2)] show ?thesis by simp
  qed
next
  case (2 fs self level)
  then show ?case by simp
next
  case (3 fs self child rest level)
  from "3.prems" show ?case
  proof (cases rule: generate_children_Inr_cases)
    case (dir self1 child1 rest1)
    from "3.IH"(1)[OF dir(1) TrueI dir(2)] "3.IH"(2)[OF dir(1) TrueI dir(2) refl dir(3)]
    show ?thesis by simp
  next
    case (other rest1)
    from "3.IH"(3)[OF other(1) not_False other(2)] show ?thesis .
  qed
qed

lemma generate_directory:
  "generate_tree fs self node level = Inr (self', node') \<Longrightarrow> directory self' = directory self"
  "generate_children fs self cs level = Inr (self', cs') \<Longrightarrow> directory self' = directory self"
proof (induction fs self node level and fs self cs level arbitrary: self' node' and self' cs'
    rule: generate_tree_generate_children.induct)
  case (1 fs self node level)
  from "1.prems" show ?case
  proof (cases rule: generate_tree_Inr_cases)
    case stop
    then show ?thesis by simp
  next
    case (go self1 node1 cs)
    from "1.IH"[OF go(1,2) refl go(3)] expand_directory[OF go(2)] show ?thesis by simp
  qed
next
  case (2 fs self level)
  then show ?case by simp
next
  case (3 fs self child rest level)
  from "3.prems" show ?case
  proof (cases rule: generate_children_Inr_cases)
    case (dir self1 child1 rest1)
    from "3.IH"(1)[OF dir(1) TrueI dir(2)] "3.IH"(2)[OF dir(1) TrueI dir(2) refl dir(3)]
    show ?thesis by simp
  next
    case (other rest1)
    from "3.IH"(3)[OF other(1) not_False other(2)] show ?thesis .
  qed
qed

lemma generate_state:
  "generate_tree fs self node level = Inr (self', node') \<Longrightarrow> state node' = state node"
  "generate_children fs self cs level = Inr (self', cs') \<Longrightarrow> map state cs' = map state cs"
proof (induction fs self node level and fs self cs level arbitrary: self' node' and self' cs'
    rule: generate_tree_generate_children.induct)
  case (1 fs self node level)
  from "1.prems" show ?case
  proof (cases rule: generate_tree_Inr_cases)
    case stop
    then show ?thesis by simp
  next
    case (go self1 node1 cs)
    from expand_state[OF go(2)] go(4) show ?thesis by simp
  qed
next
  case (2 fs self level)
  then show ?case by simp
next
  case (3 fs self child rest level)
  from "3.prems" show ?case
  proof (cases rule: generate_children_Inr_cases)
    case (dir self1 child1 rest1)
    from "3.IH"(1)[OF dir(1) TrueI dir(2)] "3.IH"(2)[OF dir(1) TrueI dir(2) refl dir(3)] dir(4)
    show ?thesis by simp
  next
    case (other rest1)
    from "3.IH"(3)[OF other(1) not_False other(2)] other(3) show ?thesis by simp
  qed
qed

text \<open>Once the flag is set nothing is created any more.\<close>

lemma generate_tree_full: "full self \<Longrightarrow> generate_tree fs self node level = Inr (self, node)"
  by (simp add: generate_tree.simps)

lemma generate_children_full_Inr:
  "full self \<Longrightarrow> generate_children fs self cs level = Inr (self', cs') \<Longrightarrow>
     self' = self \<and> cs' = cs"
proof (induction cs arbitrary: cs')
  case Nil
  then show ?case by simp
next
  case (Cons c cs)
  from Cons.prems(2) show ?case
  proof (cases rule: generate_children_Inr_cases)
    case (dir self1 child1 rest1)
    from dir(2) Cons.prems(1) have "self1 = self" "child1 = c"
      by (simp_all add: generate_tree_full)
    with Cons.IH[OF Cons.prems(1)] dir(3,4) show ?thesis by simp
  next
    case (other rest1)
    with Cons.IH[OF Cons.prems(1)] show ?thesis by simp
  qed
qed

lemma generate_children_full:
  "full self \<Longrightarrow> \<forall>c \<in> set cs. \<exists>k. kind_of fs (state c) = Inr k \<Longrightarrow>
     generate_children fs self cs level = Inr (self, cs)"
proof (induction cs)
  case Nil
  then show ?case by simp
next
  case (Cons c cs)
  from Cons.prems(2) obtain k where k: "kind_of fs (state c) = Inr k" by auto
  from Cons.IH[OF Cons.prems(1)] Cons.prems(2)
  have r: "generate_children fs self cs level = Inr (self, cs)" by simp
  from k r Cons.prems(1) show ?case
    by (simp add: is_dir_def generate_tree_full)
qed

lemma expand_loop_cap_inv:
  "cap_inv self \<Longrightarrow> \<not> full self \<Longrightarrow> expand_loop fs cs self node = (r, self1, node1) \<Longrightarrow>
     cap_inv self1"
proof (induction cs arbitrary: self node)
  case Nil
  then show ?case by simp
next
  case (Cons c cs)
  have step: "cap_inv s" if "increment_counts fs self c = Inr s" for s
    using Cons.prems(1,2) increment_counts_total[OF that] increment_counts_full[OF that]
    by (auto simp add: cap_inv_def)
  from Cons.prems(3) show ?case
  proof (cases rule: expand_loop_Cons_cases)
    case (raise_filter e)
    with Cons.prems(1) show ?thesis by simp
  next
    case skip
    from Cons.IH[OF Cons.prems(1,2) skip(2)] show ?thesis .
  next
    case (raise_count e)
    with Cons.prems(1) show ?thesis by simp
  next
    case trip
    from step[OF trip(2)] show ?thesis .
  next
    case (add s)
    from Cons.IH[OF step[OF add(2)] add(3,4)] show ?thesis .
  qed
qed

lemma expand_cap_inv:
  assumes "cap_inv self" and "\<not> full self" and "expand fs self node = Inr (self1, node1)"
  shows "cap_inv self1"
  using assms(3)
proof (cases rule: expand_Inr_cases)
  case denied
  with assms(1) show ?thesis by simp
next
  case (listed entries r)
  from expand_loop_cap_inv[OF assms(1,2) listed(2)] show ?thesis .
qed

lemma generate_cap_inv:
  "generate_tree fs self node level = Inr (self', node') \<Longrightarrow> cap_inv self \<Longrightarrow> cap_inv self'"
  "generate_children fs self cs level = Inr (self', cs') \<Longrightarrow> cap_inv self \<Longrightarrow> cap_inv self'"
proof (induction fs self node level and fs self cs level arbitrary: self' node' and self' cs'
    rule: generate_tree_generate_children.induct)
  case (1 fs self node level)
  from "1.prems"(1) show ?case
  proof (cases rule: generate_tree_Inr_cases)
    case stop
    with "1.prems"(2) show ?thesis by simp
  next
    case (go self1 node1 cs)
    from go(1) have "\<not> full self" by simp
    from expand_cap_inv[OF "1.prems"(2) this go(2)] have "cap_inv self1" .
    from "1.IH"[OF go(1,2) refl go(3) this] show ?thesis .
  qed
next
  case (2 fs self level)
  then show ?case by simp
next
  case (3 fs self child rest level)
  from "3.prems"(1) show ?case
  proof (cases rule: generate_children_Inr_cases)
    case (dir self1 child1 rest1)
    from "3.IH"(1)[OF dir(1) TrueI dir(2) "3.prems"(2)] have "cap_inv self1" .
    from "3.IH"(2)[OF dir(1) TrueI dir(2) refl dir(3) this] show ?thesis .
  next
    case (other rest1)
    from "3.IH"(3)[OF other(1) not_False other(2) "3.prems"(2)] show ?thesis .
  qed
qed

lemma Tree_Inr:
  assumes "Tree fs dir ar = Inr t"
  obtains self1 node1 where
    "generate_tree fs \<lparr>directory = dir, args = ar, root = TreeNode dir [],
        dir_count = 0, file_count = 0, full = False\<rparr> (TreeNode dir []) 0 = Inr (self1, node1)"
    and "t = self1\<lparr>root := node1\<rparr>"
  using assms by (auto simp add: Tree_def Let_def split: sum.splits)

lemma Tree_cap_inv: "Tree fs dir ar = Inr t \<Longrightarrow> cap_inv t"
proof -
  assume t: "Tree fs dir ar = Inr t"
  let ?s = "\<lparr>directory = dir, args = ar, root = TreeNode dir [],
               dir_count = 0, file_count = 0, full = False\<rparr>"
  from t obtain self1 node1 where
    g: "generate_tree fs ?s (TreeNode dir []) 0 = Inr (self1, node1)" and
    eq: "t = self1\<lparr>root := node1\<rparr>"
    by (rule Tree_Inr)
  have "cap_inv ?s" by (simp add: cap_inv_def total_def)
  from generate_cap_inv(1)[OF g this] eq show ?thesis
    by (simp add: cap_inv_def total_def)
qed

text \<open>The build of the example, evaluated.\<close>

lemma Tree_example: "Tree example_fs [''tmp''] default_args = Inr example_tree"
  by (simp add: Tree_def example_fs_def default_args_def example_tree_def generate_tree.simps
      expand_def iterdir_def should_include_def increment_counts_def startswith_def name_def
      is_dir_def is_file_def add_child_def insort_def list_insert_def lt_def len_def Let_def)

section \<open>Nodes and counters\<close>

lemma length_nodes: "length (nodes node) = Suc (length (concat (map nodes (children node))))"
  by (cases node) simp

lemma forest_list_insert:
  "length (concat (map g (list_insert xs k x))) = length (concat (map g xs)) + length (g x)"
proof -
  have "length (concat (map g (take k xs @ drop k xs))) = length (concat (map g xs))"
    by simp
  then show ?thesis
    unfolding list_insert_def by (simp del: append_take_drop_id)
qed

lemma length_nodes_add_child:
  "length (nodes (add_child node child)) = length (nodes node) + length (nodes child)"
  by (simp add: length_nodes add_child_def insort_def forest_list_insert)

lemma expand_loop_count:
  "\<not> full self \<Longrightarrow> expand_loop fs cs self node = (r, self1, node1) \<Longrightarrow>
     int (length (nodes node1)) - int (length (nodes node))
       = total self1 - total self - (if full self1 then 1 else 0)"
proof (induction cs arbitrary: self node)
  case Nil
  then show ?case by simp
next
  case (Cons c cs)
  from Cons.prems(2) show ?case
  proof (cases rule: expand_loop_Cons_cases)
    case (raise_filter e)
    with Cons.prems(1) show ?thesis by simp
  next
    case skip
    from Cons.IH[OF Cons.prems(1) skip(2)] show ?thesis .
  next
    case (raise_count e)
    with Cons.prems(1) show ?thesis by simp
  next
    case trip
    with increment_counts_total[OF trip(2)] show ?thesis by simp
  next
    case (add s)
    from Cons.IH[OF add(3,4)] increment_counts_total[OF add(2)] show ?thesis
      by (simp add: length_nodes_add_child)
  qed
qed

lemma expand_count:
  assumes "\<not> full self" and "expand fs self node = Inr (self1, node1)"
  shows "int (length (nodes node1)) - int (length (nodes node))
       = total self1 - total self - (if full self1 then 1 else 0)"
  using assms(2)
proof (cases rule: expand_Inr_cases)
  case denied
  with assms(1) show ?thesis by simp
next
  case (listed entries r)
  from expand_loop_count[OF assms(1) listed(2)] show ?thesis .
qed

lemma generate_count:
  "generate_tree fs self node level = Inr (self', node') \<Longrightarrow>
     (full self \<longrightarrow> full self') \<and>
     int (length (nodes node')) - int (length (nodes node))
       = total self' - total self - (if full self' \<and> \<not> full self then 1 else 0)"
  "generate_children fs self cs level = Inr (self', cs') \<Longrightarrow>
     (full self \<longrightarrow> full self') \<and>
     int (length (concat (map nodes cs'))) - int (length (concat (map nodes cs)))
       = total self' - total self - (if full self' \<and> \<not> full self then 1 else 0)"
proof (induction fs self node level and fs self cs level arbitrary: self' node' and self' cs'
    rule: generate_tree_generate_children.induct)
  case (1 fs self node level)
  from "1.prems" show ?case
  proof (cases rule: generate_tree_Inr_cases)
    case stop
    then show ?thesis by auto
  next
    case (go self1 node1 cs)
    from go(1) have nf: "\<not> full self" by simp
    note a = expand_count[OF nf go(2)]
    note b = "1.IH"[OF go(1,2) refl go(3)]
    from a b go(4) nf show ?thesis
      by (cases "full self1"; cases "full self'"; simp add: length_nodes[of node1])
  qed
next
  case (2 fs self level)
  then show ?case by simp
next
  case (3 fs self child rest level)
  from "3.prems" show ?case
  proof (cases rule: generate_children_Inr_cases)
    case (dir self1 child1 rest1)
    note a = "3.IH"(1)[OF dir(1) TrueI dir(2)]
    note b = "3.IH"(2)[OF dir(1) TrueI dir(2) refl dir(3)]
    from a b dir(4) show ?thesis
      by (cases "full self"; cases "full self1"; cases "full self'"; simp)
  next
    case (other rest1)
    from "3.IH"(3)[OF other(1) not_False other(2)] other(3) show ?thesis by simp
  qed
qed

lemma Tree_count:
  assumes "Tree fs dir ar = Inr t"
  shows "int (length (nodes (root t))) - 1
           = dir_count t + file_count t - (if full t then 1 else 0)"
proof -
  let ?s = "\<lparr>directory = dir, args = ar, root = TreeNode dir [],
               dir_count = 0, file_count = 0, full = False\<rparr>"
  from assms obtain self1 node1 where
    g: "generate_tree fs ?s (TreeNode dir []) 0 = Inr (self1, node1)" and
    eq: "t = self1\<lparr>root := node1\<rparr>"
    by (rule Tree_Inr)
  from generate_count(1)[OF g] eq show ?thesis
    by (simp add: total_def)
qed

section \<open>The nodes of a built tree have a known kind\<close>

text \<open>
  A node is created after its path was counted, for which \<open>is_dir\<close> answered: the status
  query answers for every node below the root of a built tree.
\<close>

lemma known_iff: "known fs p \<longleftrightarrow> (\<exists>k. kind_of fs p = Inr k)"
  by (simp add: known_def split: sum.splits)

lemma known_is_dir: "known fs p \<Longrightarrow> \<exists>b. is_dir fs p = Inr b"
  by (auto simp add: known_iff is_dir_def)

lemma known_is_file: "known fs p \<Longrightarrow> \<exists>b. is_file fs p = Inr b"
  by (auto simp add: known_iff is_file_def)

lemma is_dir_known: "is_dir fs p = Inr b \<Longrightarrow> known fs p"
  by (auto simp add: known_iff is_dir_def split: sum.splits)

lemma set_list_insert: "set (list_insert xs k x) = insert x (set xs)"
proof -
  have "set (take k xs @ drop k xs) = set xs" by simp
  then show ?thesis
    unfolding list_insert_def by (auto simp del: append_take_drop_id)
qed

lemma set_children_add_child:
  "set (children (add_child node child)) = insert child (set (children node))"
  by (simp add: add_child_def insort_def set_list_insert)

lemma expand_loop_new_children:
  "expand_loop fs cs self node = (r, self1, node1) \<Longrightarrow>
     \<forall>c \<in> set (children node1). c \<in> set (children node) \<or>
        (children c = [] \<and> state c \<in> set cs \<and> known fs (state c))"
proof (induction cs arbitrary: self node)
  case Nil
  then show ?case by simp
next
  case (Cons c cs)
  from Cons.prems show ?case
  proof (cases rule: expand_loop_Cons_cases)
    case skip
    from Cons.IH[OF skip(2)] show ?thesis by auto
  next
    case (add s)
    from increment_counts_known[OF add(2)] have "known fs c" by (simp add: known_iff)
    with Cons.IH[OF add(4)] show ?thesis
      by (auto simp add: set_children_add_child)
  qed simp_all
qed

lemma expand_new_children:
  assumes "expand fs self node = Inr (self1, node1)"
  shows "\<forall>c \<in> set (children node1). c \<in> set (children node) \<or>
           (children c = [] \<and> known fs (state c))"
  using assms
proof (cases rule: expand_Inr_cases)
  case denied
  then show ?thesis by simp
next
  case (listed entries r)
  from expand_loop_new_children[OF listed(2)] show ?thesis by blast
qed

lemma generate_known:
  "generate_tree fs self node level = Inr (self', node') \<Longrightarrow>
     \<forall>n \<in> set (concat (map nodes (children node))). known fs (state n) \<Longrightarrow>
     \<forall>n \<in> set (concat (map nodes (children node'))). known fs (state n)"
  "generate_children fs self cs level = Inr (self', cs') \<Longrightarrow>
     \<forall>n \<in> set (concat (map nodes cs)). known fs (state n) \<Longrightarrow>
     \<forall>n \<in> set (concat (map nodes cs')). known fs (state n)"
proof (induction fs self node level and fs self cs level arbitrary: self' node' and self' cs'
    rule: generate_tree_generate_children.induct)
  case (1 fs self node level)
  from "1.prems"(1) show ?case
  proof (cases rule: generate_tree_Inr_cases)
    case stop
    with "1.prems"(2) show ?thesis by simp
  next
    case (go self1 node1 cs)
    have "\<forall>n \<in> set (concat (map nodes (children node1))). known fs (state n)"
    proof
      fix n assume "n \<in> set (concat (map nodes (children node1)))"
      then obtain c where c: "c \<in> set (children node1)" and n: "n \<in> set (nodes c)" by auto
      from expand_new_children[OF go(2)] c
      have "c \<in> set (children node) \<or> (children c = [] \<and> known fs (state c))" by blast
      then show "known fs (state n)"
      proof
        assume "c \<in> set (children node)"
        with n "1.prems"(2) show ?thesis by auto
      next
        assume "children c = [] \<and> known fs (state c)"
        with n show ?thesis by (cases c) auto
      qed
    qed
    from "1.IH"[OF go(1,2) refl go(3) this] go(4) show ?thesis by simp
  qed
next
  case (2 fs self level)
  then show ?case by simp
next
  case (3 fs self child rest level)
  from "3.prems"(2) have kc: "known fs (state child)"
    by (cases child) auto
  from "3.prems"(2) have below: "\<forall>n \<in> set (concat (map nodes (children child))). known fs (state n)"
    by (cases child) auto
  from "3.prems"(2) have rest: "\<forall>n \<in> set (concat (map nodes rest)). known fs (state n)"
    by simp
  from "3.prems"(1) show ?case
  proof (cases rule: generate_children_Inr_cases)
    case (dir self1 child1 rest1)
    have st: "state child1 = state child"
      using generate_state(1)[OF dir(2)] .
    have a: "\<forall>n \<in> set (concat (map nodes (children child1))). known fs (state n)"
      by (rule "3.IH"(1)[OF dir(1) TrueI dir(2) below])
    have b: "\<forall>n \<in> set (concat (map nodes rest1)). known fs (state n)"
      by (rule "3.IH"(2)[OF dir(1) TrueI dir(2) refl dir(3) rest])
    have "\<forall>n \<in> set (nodes child1). known fs (state n)"
      using a kc st by (cases child1) auto
    with b dir(4) show ?thesis by auto
  next
    case (other rest1)
    have b: "\<forall>n \<in> set (concat (map nodes rest1)). known fs (state n)"
      by (rule "3.IH"(3)[OF other(1) not_False other(2) rest])
    with "3.prems"(2) other(3) show ?thesis by auto
  qed
qed

lemma Tree_known:
  assumes "Tree fs dir ar = Inr t"
  shows "\<forall>n \<in> set (concat (map nodes (children (root t)))). known fs (state n)"
proof -
  let ?s = "\<lparr>directory = dir, args = ar, root = TreeNode dir [],
               dir_count = 0, file_count = 0, full = False\<rparr>"
  from assms obtain self1 node1 where
    g: "generate_tree fs ?s (TreeNode dir []) 0 = Inr (self1, node1)" and
    eq: "t = self1\<lparr>root := node1\<rparr>"
    by (rule Tree_Inr)
  from generate_known(1)[OF g] eq show ?thesis by simp
qed

section \<open>The depth limit\<close>

lemma depths_node: "depths n node = n # concat (map (depths (Suc n)) (children node))"
  by (cases node) simp

lemma expand_loop_depths:
  "expand_loop fs cs self node = (r, self1, node1) \<Longrightarrow>
     set (concat (map (depths (Suc n)) (children node1)))
       \<subseteq> set (concat (map (depths (Suc n)) (children node))) \<union> {Suc n}"
proof -
  assume "expand_loop fs cs self node = (r, self1, node1)"
  from expand_loop_new_children[OF this]
  have "\<forall>c \<in> set (children node1). c \<in> set (children node) \<or> children c = []" by blast
  moreover have "set (depths (Suc n) c) = {Suc n}" if "children c = []" for c
    using that by (cases c) simp
  ultimately show ?thesis by fastforce
qed

lemma expand_depths:
  assumes "expand fs self node = Inr (self1, node1)"
  shows "set (concat (map (depths (Suc n)) (children node1)))
       \<subseteq> set (concat (map (depths (Suc n)) (children node))) \<union> {Suc n}"
  using assms
proof (cases rule: expand_Inr_cases)
  case denied
  then show ?thesis by auto
next
  case (listed entries r)
  from expand_loop_depths[OF listed(2)] show ?thesis .
qed

lemma generate_depths:
  "generate_tree fs self node level = Inr (self', node') \<Longrightarrow>
     max_depth (args self) = Some k \<Longrightarrow> level \<le> k \<Longrightarrow>
     set (depths n node') \<subseteq> set (depths n node) \<union> {m. int m \<le> int n + (k - level)}"
  "generate_children fs self cs level = Inr (self', cs') \<Longrightarrow>
     max_depth (args self) = Some k \<Longrightarrow> level < k \<Longrightarrow>
     set (concat (map (depths (Suc n)) cs'))
       \<subseteq> set (concat (map (depths (Suc n)) cs)) \<union> {m. int m \<le> int n + (k - level)}"
proof (induction fs self node level and fs self cs level arbitrary: self' node' n and self' cs' n
    rule: generate_tree_generate_children.induct)
  case (1 fs self node level)
  from "1.prems"(1) show ?case
  proof (cases rule: generate_tree_Inr_cases)
    case stop
    then show ?thesis by auto
  next
    case (go self1 node1 cs)
    from go(1) "1.prems"(2,3) have lt: "level < k" by auto
    from expand_args[OF go(2)] "1.prems"(2) have k: "max_depth (args self1) = Some k" by simp
    have a: "set (concat (map (depths (Suc n)) cs))
       \<subseteq> set (concat (map (depths (Suc n)) (children node1))) \<union> {m. int m \<le> int n + (k - level)}"
      by (rule "1.IH"[OF go(1,2) refl go(3) k lt])
    have b: "set (concat (map (depths (Suc n)) (children node1)))
       \<subseteq> set (concat (map (depths (Suc n)) (children node))) \<union> {Suc n}"
      by (rule expand_depths[OF go(2)])
    have c: "Suc n \<in> {m. int m \<le> int n + (k - level)}"
      using lt by simp
    have "set (depths n node') = insert n (set (concat (map (depths (Suc n)) cs)))"
      using go(4) by simp
    also have "\<dots> \<subseteq> insert n (set (concat (map (depths (Suc n)) (children node))))
                      \<union> {m. int m \<le> int n + (k - level)}"
      using a b c by blast
    also have "insert n (set (concat (map (depths (Suc n)) (children node)))) = set (depths n node)"
      by (simp add: depths_node[of n node])
    finally show ?thesis .
  qed
next
  case (2 fs self level)
  then show ?case by simp
next
  case (3 fs self child rest level)
  from "3.prems"(1) show ?case
  proof (cases rule: generate_children_Inr_cases)
    case (dir self1 child1 rest1)
    from generate_args(1)[OF dir(2)] "3.prems"(2) have k: "max_depth (args self1) = Some k"
      by simp
    from "3.prems"(3) have le: "level + 1 \<le> k" by simp
    have a: "set (depths (Suc n) child1)
        \<subseteq> set (depths (Suc n) child) \<union> {m. int m \<le> int (Suc n) + (k - (level + 1))}"
      by (rule "3.IH"(1)[OF dir(1) TrueI dir(2) "3.prems"(2) le])
    have b: "set (concat (map (depths (Suc n)) rest1))
       \<subseteq> set (concat (map (depths (Suc n)) rest)) \<union> {m. int m \<le> int n + (k - level)}"
      by (rule "3.IH"(2)[OF dir(1) TrueI dir(2) refl dir(3) k "3.prems"(3)])
    have "{m. int m \<le> int (Suc n) + (k - (level + 1))} = {m. int m \<le> int n + (k - level)}"
      by auto
    with a b dir(4) show ?thesis by auto
  next
    case (other rest1)
    from "3.IH"(3)[OF other(1) not_False other(2) "3.prems"(2,3)] other(3) show ?thesis by auto
  qed
qed

lemma Tree_depths:
  assumes "max_depth ar = Some k" and "0 \<le> k" and "Tree fs dir ar = Inr t"
  shows "\<forall>m \<in> set (depths 0 (root t)). int m \<le> k"
proof -
  let ?s = "\<lparr>directory = dir, args = ar, root = TreeNode dir [],
               dir_count = 0, file_count = 0, full = False\<rparr>"
  from assms(3) obtain self1 node1 where
    g: "generate_tree fs ?s (TreeNode dir []) 0 = Inr (self1, node1)" and
    eq: "t = self1\<lparr>root := node1\<rparr>"
    by (rule Tree_Inr)
  have "set (depths 0 node1) \<subseteq> set (depths 0 (TreeNode dir [])) \<union> {m. int m \<le> int 0 + (k - 0)}"
    using generate_depths(1)[OF g, of k 0] assms(1,2) by simp
  with eq assms(2) show ?thesis by auto
qed

text \<open>
  With \<open>max_depth\<close> unset the level plays no part: what is generated from a node, or from
  a list of children, is the same at every level.
\<close>

lemma generate_level:
  "max_depth (args self) = None \<Longrightarrow>
     generate_tree fs self node level = generate_tree fs self node level'"
  "max_depth (args self) = None \<Longrightarrow>
     generate_children fs self cs level = generate_children fs self cs level'"
proof (induction fs self node level and fs self cs level arbitrary: level' and level'
    rule: generate_tree_generate_children.induct)
  case (1 fs self node level)
  show ?case
  proof (cases "full self")
    case True
    then show ?thesis by (simp add: generate_tree.simps)
  next
    case False
    with "1.prems" have g: "\<not> (full self \<or> Some level = max_depth (args self))"
      and g': "\<not> (full self \<or> Some level' = max_depth (args self))" by simp_all
    show ?thesis
    proof (cases "expand fs self node")
      case (Inl e)
      with g g' show ?thesis by (simp add: generate_tree.simps)
    next
      case (Inr x)
      obtain self1 node1 where x: "x = (self1, node1)" by (cases x)
      with Inr have e: "expand fs self node = Inr (self1, node1)" by simp
      from expand_args[OF e] "1.prems" have "max_depth (args self1) = None" by simp
      from "1.IH"[OF g e refl this, of level']
      have "generate_children fs self1 (children node1) level
              = generate_children fs self1 (children node1) level'" .
      with g g' e show ?thesis by (simp add: generate_tree.simps)
    qed
  qed
next
  case (2 fs self level)
  then show ?case by simp
next
  case (3 fs self child rest level)
  show ?case
  proof (cases "is_dir fs (state child)")
    case (Inl e)
    then show ?thesis by simp
  next
    case (Inr folder)
    show ?thesis
    proof (cases folder)
      case True
      with Inr have d: "is_dir fs (state child) = Inr True" by simp
      have t: "generate_tree fs self child (level + 1) = generate_tree fs self child (level' + 1)"
        by (rule "3.IH"(1)[OF d TrueI "3.prems"])
      show ?thesis
      proof (cases "generate_tree fs self child (level + 1)")
        case (Inl e)
        from t Inl have "generate_tree fs self child (level' + 1) = Inl e" by simp
        with Inl d show ?thesis by simp
      next
        case (Inr x)
        obtain self1 child1 where "x = (self1, child1)" by (cases x)
        with Inr have g: "generate_tree fs self child (level + 1) = Inr (self1, child1)" by simp
        from generate_args(1)[OF g] "3.prems" have "max_depth (args self1) = None" by simp
        from "3.IH"(2)[OF d TrueI g refl this, of level']
        have "generate_children fs self1 rest level = generate_children fs self1 rest level'" .
        moreover from t g have "generate_tree fs self child (level' + 1) = Inr (self1, child1)"
          by simp
        ultimately show ?thesis using g d by simp
      qed
    next
      case False
      with Inr have d: "is_dir fs (state child) = Inr False" by simp
      from "3.IH"(3)[OF d not_False "3.prems", of level'] d show ?thesis by simp
    qed
  qed
qed

text \<open>
  Where every directory holds a directory again, the generation goes down until the cap
  ends it: the built tree is a chain of 199 nodes below the root.
\<close>

lemma should_include_chain: "should_include chain_fs self (p @ [''d'']) = Inr True"
  by (simp add: should_include_def chain_fs_def is_file_def name_def startswith_def)

lemma increment_counts_chain:
  "increment_counts chain_fs self c =
     Inr (if 199 \<le> total self
          then self\<lparr>dir_count := dir_count self + 1, full := True\<rparr>
          else self\<lparr>dir_count := dir_count self + 1\<rparr>)"
  by (simp add: increment_counts_def chain_fs_def is_dir_def total_def Let_def)

lemma iterdir_chain: "iterdir chain_fs p = Inr [p @ [''d'']]"
  by (simp add: iterdir_def chain_fs_def)

lemma add_child_first: "add_child (TreeNode p []) c = TreeNode p [c]"
  by (simp add: add_child_def insort_def list_insert_def)

lemma generate_chain:
  "\<not> full self \<Longrightarrow> max_depth (args self) = None \<Longrightarrow> total self + int n = 199 \<Longrightarrow>
     generate_tree chain_fs self (TreeNode p []) level =
       Inr (self\<lparr>dir_count := dir_count self + int n + 1, full := True\<rparr>, chain_node n p)"
proof (induction n arbitrary: self p level)
  case 0
  let ?s = "self\<lparr>dir_count := dir_count self + 1, full := True\<rparr>"
  have "expand chain_fs self (TreeNode p []) = Inr (?s, TreeNode p [])"
    using "0.prems"(3)
    by (simp add: expand_def iterdir_chain should_include_chain increment_counts_chain)
  with "0.prems"(1,2) show ?case
    by (simp add: generate_tree.simps)
next
  case (Suc n)
  let ?s = "self\<lparr>dir_count := dir_count self + 1\<rparr>"
  let ?c = "TreeNode (p @ [''d'']) []"
  from Suc.prems(3) have lt: "\<not> 199 \<le> total self" by simp
  have e: "expand chain_fs self (TreeNode p []) = Inr (?s, TreeNode p [?c])"
    using lt Suc.prems(1)
    by (simp add: expand_def iterdir_chain should_include_chain increment_counts_chain
        add_child_first)
  have nf: "\<not> full ?s" using Suc.prems(1) by simp
  have nd: "max_depth (args ?s) = None" using Suc.prems(2) by simp
  have tt: "total ?s + int n = 199" using Suc.prems(3) by (simp add: total_def)
  have g: "generate_tree chain_fs ?s ?c (level + 1) =
       Inr (?s\<lparr>dir_count := dir_count ?s + int n + 1, full := True\<rparr>, chain_node n (p @ [''d'']))"
    by (rule Suc.IH[OF nf nd tt])
  have d: "is_dir chain_fs (p @ [''d'']) = Inr True"
    by (simp add: is_dir_def chain_fs_def)
  have "generate_children chain_fs ?s [?c] level =
       Inr (?s\<lparr>dir_count := dir_count ?s + int n + 1, full := True\<rparr>, [chain_node n (p @ [''d''])])"
    using g d by simp
  with e Suc.prems(1,2) show ?case
    by (simp add: generate_tree.simps add.commute add.left_commute)
qed

lemma Tree_chain:
  "max_depth ar = None \<Longrightarrow>
     Tree chain_fs dir ar = Inr \<lparr>directory = dir, args = ar, root = chain_node 199 dir,
                                 dir_count = 200, file_count = 0, full = True\<rparr>"
  using generate_chain[of "\<lparr>directory = dir, args = ar, root = TreeNode dir [],
               dir_count = 0, file_count = 0, full = False\<rparr>" 199 dir 0]
  by (simp add: Tree_def total_def)

lemma depths_chain: "depths m (chain_node n p) = [m..<Suc (m + n)]"
proof (induction n arbitrary: m p)
  case 0
  then show ?case by simp
next
  case (Suc n)
  then show ?case by (simp add: upt_conv_Cons)
qed

text \<open>
  C4. With \<open>max_depth = k\<close> for a \<open>k\<close> that is not negative, every node of the built tree
  is at depth at most \<open>k\<close>, the root being at depth 0. With \<open>max_depth\<close> unset the level
  does not limit the recursion: what is generated from a node or from a list of children
  is the same at every level as at level 0, and on the file system where every directory
  holds a directory again the built tree reaches depth 199, where the cap of 200 entries
  ends the build.
\<close>

theorem depth_limit:
  "(max_depth ar = Some k \<and> 0 \<le> k \<and> Tree fs dir ar = Inr t \<longrightarrow>
      (\<forall>m \<in> set (depths 0 (root t)). int m \<le> k)) \<and>
   (max_depth (args self) = None \<longrightarrow>
      generate_tree fs self node level = generate_tree fs self node 0 \<and>
      generate_children fs self cs level = generate_children fs self cs 0) \<and>
   (max_depth options = None \<longrightarrow>
      Tree chain_fs start options =
        Inr \<lparr>directory = start, args = options, root = chain_node 199 start,
              dir_count = 200, file_count = 0, full = True\<rparr> \<and>
      depths 0 (chain_node 199 start) = [0..<200])"
  using Tree_depths[of ar k fs dir t] generate_level(1)[of self fs node level 0]
    generate_level(2)[of self fs cs level 0] Tree_chain[of options start]
  by (simp add: depths_chain)

lemma Tree_example_depth1:
  "Tree example_fs [''tmp''] (default_args\<lparr>max_depth := Some 1\<rparr>) = Inr depth1_tree"
  by (simp add: Tree_def example_fs_def default_args_def depth1_tree_def generate_tree.simps
      expand_def iterdir_def should_include_def increment_counts_def startswith_def name_def
      is_dir_def is_file_def add_child_def insort_def list_insert_def lt_def len_def Let_def)

theorem depth_limit_witness:
  "max_depth (default_args\<lparr>max_depth := Some 1\<rparr>) = Some 1 \<and> (0::int) \<le> 1 \<and>
   Tree example_fs [''tmp''] (default_args\<lparr>max_depth := Some 1\<rparr>) = Inr depth1_tree \<and>
   depths 0 (root depth1_tree) = [0, 1, 1] \<and>
   list_all (\<lambda>m. int m \<le> 1) (depths 0 (root depth1_tree)) \<and>
   max_depth (args (chain_tree\<lparr>dir_count := 0, full := False\<rparr>)) = None \<and>
   generate_tree chain_fs (chain_tree\<lparr>dir_count := 0, full := False\<rparr>) (TreeNode [''tmp''] []) 150
     = generate_tree chain_fs (chain_tree\<lparr>dir_count := 0, full := False\<rparr>) (TreeNode [''tmp''] []) 0 \<and>
   generate_tree chain_fs (chain_tree\<lparr>dir_count := 0, full := False\<rparr>) (TreeNode [''tmp''] []) 150
     = Inr (chain_tree, chain_node 199 [''tmp'']) \<and>
   max_depth default_args = None \<and>
   Tree chain_fs [''tmp''] default_args = Inr chain_tree \<and>
   depths 0 (root chain_tree) = [0..<200] \<and>
   199 \<in> set (depths 0 (root chain_tree))"
proof -
  let ?s = "chain_tree\<lparr>dir_count := 0, full := False\<rparr>"
  have 1: "max_depth (default_args\<lparr>max_depth := Some 1\<rparr>) = Some 1" by simp
  have 2: "max_depth (args ?s) = None"
    by (simp add: chain_tree_def default_args_def)
  have 3: "depths 0 (root depth1_tree) = [0, 1, 1]"
    by (simp add: depth1_tree_def)
  have 4: "max_depth default_args = None"
    by (simp add: default_args_def)
  have 5: "generate_tree chain_fs ?s (TreeNode [''tmp''] []) 0 = Inr (chain_tree, chain_node 199 [''tmp''])"
    using generate_chain[of ?s 199 "[''tmp'']" 0] 2
    by (simp add: chain_tree_def total_def)
  have 6: "root chain_tree = chain_node 199 [''tmp'']"
    by (simp add: chain_tree_def)
  show ?thesis
    using depth_limit [where ar = "default_args\<lparr>max_depth := Some 1\<rparr>" and k = 1
        and fs = example_fs and dir = "[''tmp'']" and t = depth1_tree and self = ?s
        and node = "TreeNode [''tmp''] []" and level = 150 and cs = "[]"
        and options = default_args and start = "[''tmp'']"]
      depth_limit [where ar = "default_args\<lparr>max_depth := Some 1\<rparr>" and k = 1
        and fs = chain_fs and dir = "[''tmp'']" and t = depth1_tree and self = ?s
        and node = "TreeNode [''tmp''] []" and level = 150 and cs = "[]"
        and options = default_args and start = "[''tmp'']"]
      1 2 3 4 5 Tree_example_depth1
    by (simp add: list_all_iff 6 chain_tree_def)
qed

section \<open>Depth zero\<close>

text \<open>
  C3, as stated, says that with \<open>max_depth = 0\<close> the entries of the root appear as nodes
  under the root. In the example the root has two entries that pass the filter, and the
  tree built with \<open>max_depth = 0\<close> has no node but the root.
\<close>

theorem depth_zero_counterexample:
  "iterdir example_fs [''tmp''] = Inr [[''tmp'', ''folder1''], [''tmp'', ''folder2'']] \<and>
   should_include example_fs example_tree [''tmp'', ''folder1''] = Inr True \<and>
   should_include example_fs example_tree [''tmp'', ''folder2''] = Inr True \<and>
   Tree example_fs [''tmp''] (default_args\<lparr>max_depth := Some 0\<rparr>)
     = Inr \<lparr>directory = [''tmp''], args = default_args\<lparr>max_depth := Some 0\<rparr>,
            root = TreeNode [''tmp''] [], dir_count = 0, file_count = 0, full = False\<rparr>"
  by (simp add: Tree_def example_fs_def default_args_def example_tree_def generate_tree.simps
      iterdir_def should_include_def startswith_def name_def)

text \<open>
  C3, amended. With \<open>max_depth = 0\<close> the generation returns at level 0 before the root
  is listed: the built tree is the root alone, both counters are 0 and the flag is not set.
\<close>

theorem depth_zero_lists_nothing:
  "max_depth ar = Some 0 \<Longrightarrow>
     Tree fs dir ar = Inr \<lparr>directory = dir, args = ar, root = TreeNode dir [],
                          dir_count = 0, file_count = 0, full = False\<rparr>"
  by (simp add: Tree_def generate_tree.simps)

theorem depth_zero_lists_nothing_witness:
  "max_depth (default_args\<lparr>max_depth := Some 0\<rparr>) = Some 0 \<and>
   Tree example_fs [''tmp''] (default_args\<lparr>max_depth := Some 0\<rparr>)
     = Inr \<lparr>directory = [''tmp''], args = default_args\<lparr>max_depth := Some 0\<rparr>,
            root = TreeNode [''tmp''] [], dir_count = 0, file_count = 0, full = False\<rparr>"
  using depth_zero_lists_nothing [of "default_args\<lparr>max_depth := Some 0\<rparr>" example_fs "[''tmp'']"]
  by simp

section \<open>Insertion by child count\<close>

lemma bisect_right_spec:
  "sorted (map len xs) \<Longrightarrow> lo \<le> hi \<Longrightarrow> hi \<le> length xs \<Longrightarrow>
   (\<forall>j<lo. len (xs ! j) \<le> len x) \<Longrightarrow>
   (\<forall>j. hi \<le> j \<and> j < length xs \<longrightarrow> len x < len (xs ! j)) \<Longrightarrow>
   lo \<le> bisect_right xs x lo hi \<and> bisect_right xs x lo hi \<le> hi \<and>
   (\<forall>j<bisect_right xs x lo hi. len (xs ! j) \<le> len x) \<and>
   (\<forall>j. bisect_right xs x lo hi \<le> j \<and> j < length xs \<longrightarrow> len x < len (xs ! j))"
proof (induction xs x lo hi rule: bisect_right.induct)
  case (1 xs x lo hi)
  let ?mid = "(lo + hi) div 2"
  have mono: "\<And>j k. j \<le> k \<Longrightarrow> k < length xs \<Longrightarrow> len (xs ! j) \<le> len (xs ! k)"
    using "1.prems"(1) by (simp add: sorted_iff_nth_mono)
  show ?case
  proof (cases "lo < hi")
    case False
    with "1.prems" show ?thesis
      by (subst (1 2 3 4) bisect_right.simps) simp
  next
    case True
    then have mid: "lo \<le> ?mid" "?mid < hi" by arith+
    with "1.prems"(3) have midlen: "?mid < length xs" by simp
    show ?thesis
    proof (cases "lt x (xs ! ?mid)")
      case lt: True
      have up: "\<forall>j. ?mid \<le> j \<and> j < length xs \<longrightarrow> len x < len (xs ! j)"
      proof (intro allI impI)
        fix j assume "?mid \<le> j \<and> j < length xs"
        then have "len (xs ! ?mid) \<le> len (xs ! j)" using mono by blast
        with lt show "len x < len (xs ! j)" by (simp add: lt_def)
      qed
      have le: "?mid \<le> length xs" using midlen by simp
      have eq: "bisect_right xs x lo hi = bisect_right xs x lo ?mid"
        using True lt by (subst bisect_right.simps) (simp add: Let_def)
      from "1.IH"(1)[OF True refl lt "1.prems"(1) mid(1) le "1.prems"(4) up] mid(2)
      show ?thesis unfolding eq by auto
    next
      case nlt: False
      have low: "\<forall>j<?mid + 1. len (xs ! j) \<le> len x"
      proof (intro allI impI)
        fix j assume "j < ?mid + 1"
        then have "len (xs ! j) \<le> len (xs ! ?mid)" using mono midlen by simp
        with nlt show "len (xs ! j) \<le> len x" by (simp add: lt_def)
      qed
      have le: "?mid + 1 \<le> hi" using mid(2) by simp
      have eq: "bisect_right xs x lo hi = bisect_right xs x (?mid + 1) hi"
        using True nlt by (subst bisect_right.simps) (simp add: Let_def)
      from "1.IH"(2)[OF True refl nlt "1.prems"(1) le "1.prems"(3) low "1.prems"(5)] mid(1)
      show ?thesis unfolding eq by auto
    qed
  qed
qed

lemma insort_spec:
  assumes "sorted (map len xs)"
  shows "\<exists>before after. xs = before @ after \<and> insort xs x = before @ x # after \<and>
           (\<forall>y \<in> set before. len y \<le> len x) \<and> (\<forall>y \<in> set after. len x < len y)"
proof -
  let ?r = "bisect_right xs x 0 (length xs)"
  from bisect_right_spec[OF assms, of 0 "length xs" x]
  have r: "?r \<le> length xs" "\<forall>j<?r. len (xs ! j) \<le> len x"
    "\<forall>j. ?r \<le> j \<and> j < length xs \<longrightarrow> len x < len (xs ! j)"
    by simp_all
  have 1: "xs = take ?r xs @ drop ?r xs" by simp
  have 2: "insort xs x = take ?r xs @ x # drop ?r xs"
    by (simp add: insort_def list_insert_def)
  have 3: "\<forall>y \<in> set (take ?r xs). len y \<le> len x"
  proof
    fix y assume "y \<in> set (take ?r xs)"
    then obtain j where "j < length (take ?r xs)" "y = take ?r xs ! j"
      by (auto simp add: in_set_conv_nth)
    with r(1,2) show "len y \<le> len x" by simp
  qed
  have 4: "\<forall>y \<in> set (drop ?r xs). len x < len y"
  proof
    fix y assume "y \<in> set (drop ?r xs)"
    then obtain j where j: "j < length (drop ?r xs)" "y = drop ?r xs ! j"
      by (auto simp add: in_set_conv_nth)
    then have "y = xs ! (?r + j)" "?r + j < length xs" using r(1) by simp_all
    with r(3) show "len x < len y" by simp
  qed
  from 1 2 3 4 show ?thesis by blast
qed

lemma insort_sorted:
  assumes "sorted (map len xs)"
  shows "sorted (map len (insort xs x))"
proof -
  from insort_spec[OF assms, of x] obtain before after where
    s: "xs = before @ after" "insort xs x = before @ x # after"
       "\<forall>y \<in> set before. len y \<le> len x" "\<forall>y \<in> set after. len x < len y"
    by blast
  from assms s(1) have "sorted (map len before)" "sorted (map len after)"
    by (simp_all add: sorted_append)
  with s(2,3,4) show ?thesis
    by (fastforce simp add: sorted_append)
qed

lemma expand_loop_sorted:
  "sorted (map len (children node)) \<Longrightarrow> expand_loop fs cs self node = (r, self1, node1) \<Longrightarrow>
     sorted (map len (children node1))"
proof (induction cs arbitrary: self node)
  case Nil
  then show ?case by simp
next
  case (Cons c cs)
  from Cons.prems(2) show ?case
  proof (cases rule: expand_loop_Cons_cases)
    case (raise_filter e)
    with Cons.prems(1) show ?thesis by simp
  next
    case skip
    from Cons.IH[OF Cons.prems(1) skip(2)] show ?thesis .
  next
    case (raise_count e)
    with Cons.prems(1) show ?thesis by simp
  next
    case trip
    with Cons.prems(1) show ?thesis by simp
  next
    case (add s)
    have "sorted (map len (children (add_child node (TreeNode c []))))"
      using Cons.prems(1) by (simp add: add_child_def insort_sorted)
    from Cons.IH[OF this add(4)] show ?thesis .
  qed
qed

lemma expand_sorted:
  assumes "sorted (map len (children node))" and "expand fs self node = Inr (self1, node1)"
  shows "sorted (map len (children node1))"
  using assms(2)
proof (cases rule: expand_Inr_cases)
  case denied
  with assms(1) show ?thesis by simp
next
  case (listed entries r)
  from expand_loop_sorted[OF assms(1) listed(2)] show ?thesis .
qed

text \<open>
  C2. A child is inserted into a sequence that is ascending by child count at the place
  that keeps it ascending, by the count the child has when it is inserted: it goes after
  every sibling whose count is not greater than its own, so equal counts stay in the order
  of insertion, and before every sibling with a greater count. \<open>expand\<close>, which inserts a
  node for each entry with no children of its own yet, leaves the sequence ascending by
  the counts the children have at that moment.
\<close>

theorem children_sorted_at_insertion:
  assumes "sorted (map len (children node))"
  shows "(\<exists>before after.
            children node = before @ after \<and>
            children (add_child node child) = before @ child # after \<and>
            (\<forall>y \<in> set before. len y \<le> len child) \<and>
            (\<forall>y \<in> set after. len child < len y)) \<and>
         sorted (map len (children (add_child node child))) \<and>
         (expand fs self node = Inr (self1, node1) \<longrightarrow> sorted (map len (children node1)))"
  using insort_spec[OF assms, of child] insort_sorted[OF assms, of child]
    expand_sorted[OF assms, of fs self self1 node1]
  by (simp add: add_child_def)

theorem children_sorted_at_insertion_witness:
  "sorted (map len (children (TreeNode [''r'']
      [TreeNode [''r'', ''u''] [],
       TreeNode [''r'', ''v''] [TreeNode [''r'', ''v'', ''x''] []],
       TreeNode [''r'', ''w''] [TreeNode [''r'', ''w'', ''x''] [], TreeNode [''r'', ''w'', ''y''] []]]))) \<and>
   children (add_child (TreeNode [''r'']
      [TreeNode [''r'', ''u''] [],
       TreeNode [''r'', ''v''] [TreeNode [''r'', ''v'', ''x''] []],
       TreeNode [''r'', ''w''] [TreeNode [''r'', ''w'', ''x''] [], TreeNode [''r'', ''w'', ''y''] []]])
      (TreeNode [''r'', ''z''] [TreeNode [''r'', ''z'', ''x''] []]))
     = [TreeNode [''r'', ''u''] [],
        TreeNode [''r'', ''v''] [TreeNode [''r'', ''v'', ''x''] []],
        TreeNode [''r'', ''z''] [TreeNode [''r'', ''z'', ''x''] []],
        TreeNode [''r'', ''w''] [TreeNode [''r'', ''w'', ''x''] [], TreeNode [''r'', ''w'', ''y''] []]] \<and>
   sorted (map len (children (add_child (TreeNode [''r'']
      [TreeNode [''r'', ''u''] [],
       TreeNode [''r'', ''v''] [TreeNode [''r'', ''v'', ''x''] []],
       TreeNode [''r'', ''w''] [TreeNode [''r'', ''w'', ''x''] [], TreeNode [''r'', ''w'', ''y''] []]])
      (TreeNode [''r'', ''z''] [TreeNode [''r'', ''z'', ''x''] []])))) \<and>
   sorted (map len (children (TreeNode [''tmp'', ''folder1''] []))) \<and>
   expand example_fs example_tree (TreeNode [''tmp'', ''folder1''] [])
     = Inr (example_tree\<lparr>file_count := 5\<rparr>,
            TreeNode [''tmp'', ''folder1'']
              [TreeNode [''tmp'', ''folder1'', ''file1.txt''] [],
               TreeNode [''tmp'', ''folder1'', ''file2.txt''] []]) \<and>
   sorted (map len (children (TreeNode [''tmp'', ''folder1'']
              [TreeNode [''tmp'', ''folder1'', ''file1.txt''] [],
               TreeNode [''tmp'', ''folder1'', ''file2.txt''] []])))"
proof -
  let ?n = "TreeNode [''r'']
      [TreeNode [''r'', ''u''] [],
       TreeNode [''r'', ''v''] [TreeNode [''r'', ''v'', ''x''] []],
       TreeNode [''r'', ''w''] [TreeNode [''r'', ''w'', ''x''] [], TreeNode [''r'', ''w'', ''y''] []]]"
  let ?c = "TreeNode [''r'', ''z''] [TreeNode [''r'', ''z'', ''x''] []]"
  have 1: "sorted (map len (children ?n))"
    by (simp add: len_def)
  have 2: "children (add_child ?n ?c)
     = [TreeNode [''r'', ''u''] [],
        TreeNode [''r'', ''v''] [TreeNode [''r'', ''v'', ''x''] []],
        TreeNode [''r'', ''z''] [TreeNode [''r'', ''z'', ''x''] []],
        TreeNode [''r'', ''w''] [TreeNode [''r'', ''w'', ''x''] [], TreeNode [''r'', ''w'', ''y''] []]]"
    by (simp add: add_child_def insort_def list_insert_def lt_def len_def Let_def)
  have 3: "sorted (map len (children (TreeNode [''tmp'', ''folder1''] [])))"
    by simp
  have 4: "expand example_fs example_tree (TreeNode [''tmp'', ''folder1''] [])
     = Inr (example_tree\<lparr>file_count := 5\<rparr>,
            TreeNode [''tmp'', ''folder1'']
              [TreeNode [''tmp'', ''folder1'', ''file1.txt''] [],
               TreeNode [''tmp'', ''folder1'', ''file2.txt''] []])"
    by (simp add: example_fs_def default_args_def example_tree_def
      expand_def iterdir_def should_include_def increment_counts_def startswith_def name_def
      is_dir_def is_file_def add_child_def insort_def list_insert_def lt_def len_def Let_def)
  from children_sorted_at_insertion [OF 1, of ?c]
  have 5: "sorted (map len (children (add_child ?n ?c)))"
    by blast
  from children_sorted_at_insertion [OF 3, of _ example_fs example_tree] 4
  have 6: "sorted (map len (children (TreeNode [''tmp'', ''folder1'']
              [TreeNode [''tmp'', ''folder1'', ''file1.txt''] [],
               TreeNode [''tmp'', ''folder1'', ''file2.txt''] []])))"
    by blast
  from 1 2 3 4 5 6 show ?thesis by blast
qed

text \<open>
  The order is not restored when a child's own subtree is generated later: in the tree
  built from the example the first child of the root ends with two children and the
  second with one.
\<close>

lemma example_final_counts: "map len (children (root example_tree)) = [2, 1]"
  by (simp add: example_tree_def len_def)

section \<open>The sorted insertion during a build\<close>

lemma leaves_sorted: "\<forall>y \<in> set xs. len y = 0 \<Longrightarrow> sorted (map len xs)"
  by (induction xs) auto

lemma insort_leaves:
  assumes "\<forall>y \<in> set xs. len y = 0"
  shows "insort xs (TreeNode c []) = xs @ [TreeNode c []]"
proof -
  from insort_spec[OF leaves_sorted[OF assms], of "TreeNode c []"] obtain before after where
    s: "xs = before @ after" "insort xs (TreeNode c []) = before @ TreeNode c [] # after"
       "\<forall>y \<in> set after. len (TreeNode c []) < len y"
    by blast
  have "after = []"
  proof (cases after)
    case Nil
    then show ?thesis .
  next
    case (Cons y ys)
    with s(1,3) assms show ?thesis by auto
  qed
  with s(1,2) show ?thesis by simp
qed

lemma add_child_leaves:
  "\<forall>y \<in> set (children node). len y = 0 \<Longrightarrow>
     add_child node (TreeNode c []) = TreeNode (state node) (children node @ [TreeNode c []])"
  by (simp add: add_child_def insort_leaves)

lemma expand_loop_eq_append:
  "\<forall>y \<in> set (children node). len y = 0 \<Longrightarrow>
     expand_loop fs cs self node = expand_loop_append fs cs self node"
proof (induction cs arbitrary: self node)
  case Nil
  then show ?case by simp
next
  case (Cons c cs)
  have "\<forall>y \<in> set (children (TreeNode (state node) (children node @ [TreeNode c []]))). len y = 0"
    using Cons.prems by (simp add: len_def)
  from Cons.IH[OF this] Cons.IH[OF Cons.prems] show ?case
    by (simp add: add_child_leaves[OF Cons.prems] split: sum.splits)
qed

lemma expand_eq_append:
  "\<forall>y \<in> set (children node). len y = 0 \<Longrightarrow> expand fs self node = expand_append fs self node"
  by (simp add: expand_def expand_append_def expand_loop_eq_append split: sum.splits)

lemma should_include_args:
  "args self1 = args self \<Longrightarrow> should_include fs self1 = should_include fs self"
  by (rule ext) (simp add: should_include_def)

lemma expand_loop_append_children:
  "expand_loop_append fs cs self node = (r, self1, node1) \<Longrightarrow>
     \<exists>k. children node1
           = children node @ map (\<lambda>c. TreeNode c [])
               (take k (filter (\<lambda>entry. should_include fs self entry = Inr True) cs))"
proof (induction cs arbitrary: self node)
  case Nil
  then show ?case by simp
next
  case (Cons c cs)
  let ?P = "\<lambda>self entry. should_include fs self entry = Inr True"
  have zero: "children node
           = children node @ map (\<lambda>c. TreeNode c []) (take 0 (filter (?P self) (c # cs)))"
    by simp
  from Cons.prems show ?case
  proof (cases rule: expand_loop_append_Cons_cases)
    case (raise_filter e)
    with zero show ?thesis by blast
  next
    case skip
    from Cons.IH[OF skip(2)] skip(1) show ?thesis by simp
  next
    case (raise_count e)
    with zero show ?thesis by blast
  next
    case trip
    with zero show ?thesis by blast
  next
    case (add s)
    from Cons.IH[OF add(4)] obtain k where
      "children node1 = (children node @ [TreeNode c []])
          @ map (\<lambda>c. TreeNode c []) (take k (filter (?P s) cs))"
      by auto
    moreover have "should_include fs s = should_include fs self"
      by (rule should_include_args) (rule increment_counts_args[OF add(2)])
    ultimately have "children node1
           = children node @ map (\<lambda>c. TreeNode c []) (take (Suc k) (filter (?P self) (c # cs)))"
      using add(1) by simp
    then show ?thesis by blast
  qed
qed

lemma expand_children:
  assumes "expand fs self node = Inr (self1, node1)" and "children node = []"
  shows "state node1 = state node \<and> (\<forall>y \<in> set (children node1). children y = []) \<and>
         enumeration_order fs self node1"
  using assms(1)
proof (cases rule: expand_Inr_cases)
  case denied
  with assms(2) show ?thesis
    by (simp add: enumeration_order_def)
next
  case (listed entries r)
  let ?included = "filter (\<lambda>entry. should_include fs self entry = Inr True) entries"
  from listed(2) have "expand_loop_append fs entries self node = (r, self1, node1)"
    using expand_loop_eq_append[of node fs entries self] assms(2) by simp
  from expand_loop_append_children[OF this] assms(2) obtain k where
    k: "children node1 = map (\<lambda>c. TreeNode c []) (take k ?included)"
    by auto
  have st: "state node1 = state node"
    using listed(2) by (rule expand_loop_state)
  have "map state (children node1) = take k ?included"
    by (simp add: k comp_def)
  moreover have "length (children node1) = min k (length ?included)"
    by (simp add: k min.commute)
  ultimately have "enumeration_order fs self node1"
    using listed(1) st by (simp add: enumeration_order_def min_def)
  with st k show ?thesis by auto
qed

lemma generate_eq_append:
  "\<forall>y \<in> set (children node). children y = [] \<Longrightarrow>
     generate_tree fs self node level = generate_tree_append fs self node level"
  "\<forall>y \<in> set cs. children y = [] \<Longrightarrow>
     generate_children fs self cs level = generate_children_append fs self cs level"
proof (induction fs self node level and fs self cs level
    rule: generate_tree_generate_children.induct)
  case (1 fs self node level)
  from "1.prems" have leaves: "\<forall>y \<in> set (children node). len y = 0"
    by (simp add: len_def)
  have ee: "expand_append fs self node = expand fs self node"
    using expand_eq_append[OF leaves, of fs self] by simp
  show ?case
  proof (cases "full self \<or> Some level = max_depth (args self)")
    case True
    then show ?thesis
      by (simp add: generate_tree.simps generate_tree_append.simps)
  next
    case False
    show ?thesis
    proof (cases "expand fs self node")
      case (Inl e)
      have "generate_tree fs self node level = Inl e"
        using False Inl by (simp add: generate_tree.simps)
      moreover have "generate_tree_append fs self node level = Inl e"
        using False Inl ee by (simp add: generate_tree_append.simps)
      ultimately show ?thesis by simp
    next
      case (Inr x)
      obtain self1 node1 where "x = (self1, node1)" by (cases x)
      with Inr have e: "expand fs self node = Inr (self1, node1)" by simp
      have "\<forall>y \<in> set (children node1). children y = []"
        using expand_new_children[OF e] "1.prems" by blast
      from "1.IH"[OF False e refl this]
      have c: "generate_children_append fs self1 (children node1) level
                 = generate_children fs self1 (children node1) level"
        by simp
      have "generate_tree fs self node level =
              (case generate_children fs self1 (children node1) level of
                 Inl e \<Rightarrow> Inl e
               | Inr (self2, cs) \<Rightarrow> Inr (self2, TreeNode (state node1) cs))"
        using False e by (simp add: generate_tree.simps)
      moreover have "generate_tree_append fs self node level =
              (case generate_children fs self1 (children node1) level of
                 Inl e \<Rightarrow> Inl e
               | Inr (self2, cs) \<Rightarrow> Inr (self2, TreeNode (state node1) cs))"
        using False e ee c by (simp add: generate_tree_append.simps)
      ultimately show ?thesis by simp
    qed
  qed
next
  case (2 fs self level)
  then show ?case by simp
next
  case (3 fs self child rest level)
  from "3.prems" have rest: "\<forall>y \<in> set rest. children y = []" by simp
  show ?case
  proof (cases "is_dir fs (state child)")
    case (Inl e)
    then show ?thesis by simp
  next
    case (Inr folder)
    show ?thesis
    proof (cases folder)
      case True
      with Inr have d: "is_dir fs (state child) = Inr True" by simp
      from "3.prems" have c: "\<forall>y \<in> set (children child). children y = []" by simp
      have g: "generate_tree_append fs self child (level + 1)
                 = generate_tree fs self child (level + 1)"
        using "3.IH"(1)[OF d TrueI c] by simp
      show ?thesis
      proof (cases "generate_tree fs self child (level + 1)")
        case (Inl e)
        have "generate_children fs self (child # rest) level = Inl e"
          using d Inl by simp
        moreover have "generate_children_append fs self (child # rest) level = Inl e"
          using d Inl g by simp
        ultimately show ?thesis by simp
      next
        case (Inr x)
        obtain self1 child1 where "x = (self1, child1)" by (cases x)
        with Inr have r: "generate_tree fs self child (level + 1) = Inr (self1, child1)" by simp
        have h: "generate_children_append fs self1 rest level
                   = generate_children fs self1 rest level"
          using "3.IH"(2)[OF d TrueI r refl rest] by simp
        have "generate_children fs self (child # rest) level =
                (case generate_children fs self1 rest level of
                   Inl e \<Rightarrow> Inl e
                 | Inr (self2, rest1) \<Rightarrow> Inr (self2, child1 # rest1))"
          using d r by simp
        moreover have "generate_children_append fs self (child # rest) level =
                (case generate_children fs self1 rest level of
                   Inl e \<Rightarrow> Inl e
                 | Inr (self2, rest1) \<Rightarrow> Inr (self2, child1 # rest1))"
          using d r g h by simp
        ultimately show ?thesis by simp
      qed
    next
      case False
      with Inr have d: "is_dir fs (state child) = Inr False" by simp
      have h: "generate_children_append fs self rest level = generate_children fs self rest level"
        using "3.IH"(3)[OF d not_False rest] by simp
      show ?thesis using d h by simp
    qed
  qed
qed

lemma Tree_eq_append: "Tree fs dir ar = Tree_append fs dir ar"
  by (simp add: Tree_def Tree_append_def generate_eq_append(1))

lemma enumeration_order_args:
  "args self1 = args self \<Longrightarrow> enumeration_order fs self1 n = enumeration_order fs self n"
  using should_include_args[of self1 self fs]
  by (simp add: enumeration_order_def split: sum.splits)

lemma enumeration_order_leaf: "children n = [] \<Longrightarrow> enumeration_order fs self n"
  by (simp add: enumeration_order_def split: sum.splits)

lemma enumeration_order_same_states:
  assumes "map state cs = map state (children n1)"
  shows "enumeration_order fs self (TreeNode (state n1) cs) = enumeration_order fs self n1"
proof -
  from assms have l: "length cs = length (children n1)"
    using length_map by metis
  then have "cs = [] \<longleftrightarrow> children n1 = []" by auto
  with assms l show ?thesis
    by (simp add: enumeration_order_def split: sum.splits)
qed

lemma nodes_leaf: "children n = [] \<Longrightarrow> nodes n = [n]"
  by (cases n) simp

lemma generate_enumeration_order:
  "generate_tree fs self node level = Inr (self', node') \<Longrightarrow> children node = [] \<Longrightarrow>
     \<forall>n \<in> set (nodes node'). enumeration_order fs self n"
  "generate_children fs self cs level = Inr (self', cs') \<Longrightarrow> \<forall>y \<in> set cs. children y = [] \<Longrightarrow>
     \<forall>n \<in> set (concat (map nodes cs')). enumeration_order fs self n"
proof (induction fs self node level and fs self cs level arbitrary: self' node' and self' cs'
    rule: generate_tree_generate_children.induct)
  case (1 fs self node level)
  from "1.prems"(1) show ?case
  proof (cases rule: generate_tree_Inr_cases)
    case stop
    with "1.prems"(2) show ?thesis
      by (simp add: nodes_leaf enumeration_order_leaf)
  next
    case (go self1 node1 cs)
    from expand_children[OF go(2) "1.prems"(2)] have
      leaves: "\<forall>y \<in> set (children node1). children y = []" and
      en: "enumeration_order fs self node1"
      by simp_all
    have "\<forall>n \<in> set (concat (map nodes cs)). enumeration_order fs self1 n"
      by (rule "1.IH"[OF go(1,2) refl go(3) leaves])
    then have sub: "\<forall>n \<in> set (concat (map nodes cs)). enumeration_order fs self n"
      using enumeration_order_args[OF expand_args[OF go(2)]] by simp
    have "enumeration_order fs self node'"
      using en enumeration_order_same_states[OF generate_state(2)[OF go(3)]] go(4) by simp
    with sub go(4) show ?thesis by simp
  qed
next
  case (2 fs self level)
  then show ?case by simp
next
  case (3 fs self child rest level)
  from "3.prems"(2) have rest: "\<forall>y \<in> set rest. children y = []" and leaf: "children child = []"
    by simp_all
  from "3.prems"(1) show ?case
  proof (cases rule: generate_children_Inr_cases)
    case (dir self1 child1 rest1)
    have a: "\<forall>n \<in> set (nodes child1). enumeration_order fs self n"
      by (rule "3.IH"(1)[OF dir(1) TrueI dir(2) leaf])
    have "\<forall>n \<in> set (concat (map nodes rest1)). enumeration_order fs self1 n"
      by (rule "3.IH"(2)[OF dir(1) TrueI dir(2) refl dir(3) rest])
    then have b: "\<forall>n \<in> set (concat (map nodes rest1)). enumeration_order fs self n"
      using enumeration_order_args[OF generate_args(1)[OF dir(2)]] by simp
    from a b dir(4) show ?thesis by auto
  next
    case (other rest1)
    have "\<forall>n \<in> set (concat (map nodes rest1)). enumeration_order fs self n"
      by (rule "3.IH"(3)[OF other(1) not_False other(2) rest])
    with other(3) leaf show ?thesis
      by (auto simp add: nodes_leaf enumeration_order_leaf)
  qed
qed

lemma Tree_enumeration_order:
  assumes "Tree fs dir ar = Inr t"
  shows "\<forall>n \<in> set (nodes (root t)). enumeration_order fs t n"
proof -
  let ?s = "\<lparr>directory = dir, args = ar, root = TreeNode dir [],
               dir_count = 0, file_count = 0, full = False\<rparr>"
  from assms obtain self1 node1 where
    g: "generate_tree fs ?s (TreeNode dir []) 0 = Inr (self1, node1)" and
    eq: "t = self1\<lparr>root := node1\<rparr>"
    by (rule Tree_Inr)
  have "args t = args ?s"
    using generate_args(1)[OF g] eq by simp
  from generate_enumeration_order(1)[OF g] enumeration_order_args[OF this] eq
  show ?thesis by simp
qed

text \<open>
  C9. In a build every child is inserted as a node without children into a node whose
  children have none either, so the insertion by child count puts it at the end. The
  builder gives the same result as one that appends each included entry, on every file
  system and for all options, errors included. In the built tree, the children of every
  node are the included entries of its directory in the order of the listing (all of them,
  or the initial part reached before the cap or a depth limit stopped the build).
\<close>

theorem sorted_insertion_is_append:
  "Tree fs dir ar = Tree_append fs dir ar \<and>
   ((\<forall>y \<in> set (children node). len y = 0) \<longrightarrow>
      add_child node (TreeNode entry []) = TreeNode (state node) (children node @ [TreeNode entry []])) \<and>
   (Tree fs dir ar = Inr t \<longrightarrow> (\<forall>n \<in> set (nodes (root t)). enumeration_order fs t n))"
  using Tree_eq_append[of fs dir ar] add_child_leaves[of node entry]
    Tree_enumeration_order[of fs dir ar t]
  by simp

theorem sorted_insertion_is_append_witness:
  "Tree example_fs [''tmp''] default_args = Inr example_tree \<and>
   Tree_append example_fs [''tmp''] default_args = Inr example_tree \<and>
   list_all (\<lambda>y. len y = 0) (children (TreeNode [''tmp''] [TreeNode [''tmp'', ''folder1''] []])) \<and>
   add_child (TreeNode [''tmp''] [TreeNode [''tmp'', ''folder1''] []])
       (TreeNode [''tmp'', ''folder2''] [])
     = TreeNode [''tmp''] [TreeNode [''tmp'', ''folder1''] [], TreeNode [''tmp'', ''folder2''] []] \<and>
   list_all (enumeration_order example_fs example_tree) (nodes (root example_tree)) \<and>
   map state (children (root example_tree)) = [[''tmp'', ''folder1''], [''tmp'', ''folder2'']]"
proof -
  have 1: "\<forall>y \<in> set (children (TreeNode [''tmp''] [TreeNode [''tmp'', ''folder1''] []])). len y = 0"
    by (simp add: len_def)
  have 2: "map state (children (root example_tree)) = [[''tmp'', ''folder1''], [''tmp'', ''folder2'']]"
    by (simp add: example_tree_def)
  show ?thesis
    using sorted_insertion_is_append [of example_fs "[''tmp'']" default_args
        "TreeNode [''tmp''] [TreeNode [''tmp'', ''folder1''] []]" "[''tmp'', ''folder2'']" example_tree]
      1 2 Tree_example
    by (simp add: list_all_iff)
qed

section \<open>Errors\<close>

lemma should_include_Inl: "should_include fs self c = Inl e \<Longrightarrow> kind_of fs c = Inl e"
  by (auto simp add: should_include_def is_file_def split: if_splits sum.splits)

lemma increment_counts_Inl: "increment_counts fs self c = Inl e \<Longrightarrow> kind_of fs c = Inl e"
  by (auto simp add: increment_counts_def is_dir_def split: sum.splits)

lemma expand_loop_raises:
  "expand_loop fs cs self node = (Some e, self1, node1) \<Longrightarrow> \<exists>c \<in> set cs. kind_of fs c = Inl e"
proof (induction cs arbitrary: self node)
  case Nil
  then show ?case by simp
next
  case (Cons c cs)
  from Cons.prems show ?case
  proof (cases rule: expand_loop_Cons_cases)
    case (raise_filter e')
    with should_include_Inl[OF raise_filter(1)] show ?thesis by simp
  next
    case skip
    from Cons.IH[OF skip(2)] show ?thesis by simp
  next
    case (raise_count e')
    with increment_counts_Inl[OF raise_count(2)] show ?thesis by simp
  next
    case trip
    then show ?thesis by simp
  next
    case (add s)
    from Cons.IH[OF add(4)] show ?thesis by simp
  qed
qed

lemma expand_loop_raise_first:
  "should_include fs self c = Inl e \<or>
   (should_include fs self c = Inr True \<and> increment_counts fs self c = Inl e) \<Longrightarrow>
     expand_loop fs (c # cs) self node = (Some e, self, node)"
  by auto

lemma expand_permission_error:
  "listdir fs (state node) = Inl PermissionError \<Longrightarrow> expand fs self node = Inr (self, node)"
  by (simp add: expand_def iterdir_def)

lemma expand_recovers:
  "iterdir fs (state node) = Inr entries \<Longrightarrow>
   expand_loop fs entries self node = (Some PermissionError, self1, node1) \<Longrightarrow>
     expand fs self node = Inr (self1, node1)"
  by (simp add: expand_def)

lemma expand_Inl:
  "(expand fs self node = Inl e) =
     (e \<noteq> PermissionError \<and>
      (listdir fs (state node) = Inl e \<or>
       (\<exists>entries self1 node1. iterdir fs (state node) = Inr entries \<and>
          expand_loop fs entries self node = (Some e, self1, node1))))"
  by (auto simp add: expand_def iterdir_def split: sum.splits option.splits prod.splits)

lemma generate_tree_Inl:
  "(generate_tree fs self node level = Inl e) =
     (\<not> full self \<and> Some level \<noteq> max_depth (args self) \<and>
      (expand fs self node = Inl e \<or>
       (\<exists>self1 node1. expand fs self node = Inr (self1, node1) \<and>
          generate_children fs self1 (children node1) level = Inl e)))"
  by (auto simp add: generate_tree.simps split: sum.splits)

lemma generate_children_Inl:
  "(generate_children fs self (child # rest) level = Inl e) =
     (is_dir fs (state child) = Inl e \<or>
      (is_dir fs (state child) = Inr True \<and>
        (generate_tree fs self child (level + 1) = Inl e \<or>
         (\<exists>self1 child1. generate_tree fs self child (level + 1) = Inr (self1, child1) \<and>
            generate_children fs self1 rest level = Inl e))) \<or>
      (is_dir fs (state child) = Inr False \<and> generate_children fs self rest level = Inl e))"
  by (auto split: sum.splits)

lemma Tree_Inl:
  "(Tree fs dir ar = Inl e) =
     (generate_tree fs \<lparr>directory = dir, args = ar, root = TreeNode dir [],
         dir_count = 0, file_count = 0, full = False\<rparr> (TreeNode dir []) 0 = Inl e)"
  by (auto simp add: Tree_def Let_def split: sum.splits)

lemma denied_child_is_skipped:
  assumes "is_dir fs p = Inr True" and "listdir fs p = Inl PermissionError"
  shows "generate_children fs self (TreeNode p [] # rest) level =
           (case generate_children fs self rest level of
              Inl e \<Rightarrow> Inl e
            | Inr (self2, rest1) \<Rightarrow> Inr (self2, TreeNode p [] # rest1))"
proof -
  have "generate_tree fs self (TreeNode p []) (level + 1) = Inr (self, TreeNode p [])"
    using expand_permission_error[of fs "TreeNode p []" self] assms(2)
    by (simp add: generate_tree.simps)
  with assms(1) show ?thesis by simp
qed

lemma expand_known:
  assumes "expand fs self node = Inr (self1, node1)"
    and "\<forall>n \<in> set (concat (map nodes (children node))). known fs (state n)"
  shows "\<forall>n \<in> set (concat (map nodes (children node1))). known fs (state n)"
proof
  fix n assume "n \<in> set (concat (map nodes (children node1)))"
  then obtain c where c: "c \<in> set (children node1)" and n: "n \<in> set (nodes c)" by auto
  from expand_new_children[OF assms(1)] c
  have "c \<in> set (children node) \<or> (children c = [] \<and> known fs (state c))" by blast
  then show "known fs (state n)"
  proof
    assume "c \<in> set (children node)"
    with n assms(2) show ?thesis by auto
  next
    assume "children c = [] \<and> known fs (state c)"
    with n show ?thesis by (cases c) auto
  qed
qed

lemma generate_not_permission_error:
  "\<forall>n \<in> set (concat (map nodes (children node))). known fs (state n) \<Longrightarrow>
     generate_tree fs self node level \<noteq> Inl PermissionError"
  "\<forall>n \<in> set (concat (map nodes cs)). known fs (state n) \<Longrightarrow>
     generate_children fs self cs level \<noteq> Inl PermissionError"
proof (induction fs self node level and fs self cs level
    rule: generate_tree_generate_children.induct)
  case (1 fs self node level)
  show ?case
  proof
    assume "generate_tree fs self node level = Inl PermissionError"
    then have g: "\<not> (full self \<or> Some level = max_depth (args self))" and
      "expand fs self node = Inl PermissionError \<or>
       (\<exists>self1 node1. expand fs self node = Inr (self1, node1) \<and>
          generate_children fs self1 (children node1) level = Inl PermissionError)"
      by (simp_all add: generate_tree_Inl)
    then obtain self1 node1 where e: "expand fs self node = Inr (self1, node1)" and
      c: "generate_children fs self1 (children node1) level = Inl PermissionError"
      by (auto simp add: expand_Inl)
    from "1.IH"[OF g e refl expand_known[OF e "1.prems"]] c show False by simp
  qed
next
  case (2 fs self level)
  then show ?case by simp
next
  case (3 fs self child rest level)
  from "3.prems" have kc: "known fs (state child)"
    by (cases child) auto
  from "3.prems" have below: "\<forall>n \<in> set (concat (map nodes (children child))). known fs (state n)"
    by (cases child) auto
  from "3.prems" have rest: "\<forall>n \<in> set (concat (map nodes rest)). known fs (state n)"
    by simp
  from known_is_dir[OF kc] obtain b where b: "is_dir fs (state child) = Inr b" by blast
  show ?case
  proof
    assume a: "generate_children fs self (child # rest) level = Inl PermissionError"
    show False
    proof (cases b)
      case True
      with b have d: "is_dir fs (state child) = Inr True" by simp
      from a d "3.IH"(1)[OF d TrueI below] obtain self1 child1 where
        g: "generate_tree fs self child (level + 1) = Inr (self1, child1)" and
        r: "generate_children fs self1 rest level = Inl PermissionError"
        by (auto simp add: generate_children_Inl simp del: generate_children.simps)
      from "3.IH"(2)[OF d TrueI g refl rest] r show False by simp
    next
      case False
      with b have d: "is_dir fs (state child) = Inr False" by simp
      from a d "3.IH"(3)[OF d not_False rest] show False
        by (simp add: generate_children_Inl del: generate_children.simps)
    qed
  qed
qed

lemma Tree_not_permission_error: "Tree fs dir ar \<noteq> Inl PermissionError"
  by (simp add: Tree_Inl generate_not_permission_error)

lemma Tree_locked: "Tree locked_fs [''tmp''] default_args = Inr locked_tree"
  by (simp add: Tree_def locked_fs_def default_args_def locked_tree_def generate_tree.simps
      expand_def iterdir_def should_include_def increment_counts_def startswith_def name_def
      is_dir_def is_file_def add_child_def insort_def list_insert_def lt_def len_def Let_def)

lemma Tree_broken: "Tree broken_fs [''tmp''] default_args = Inl OSError"
  by (simp add: Tree_def broken_fs_def locked_fs_def default_args_def generate_tree.simps
      expand_def iterdir_def should_include_def increment_counts_def startswith_def name_def
      is_dir_def is_file_def add_child_def insort_def list_insert_def lt_def len_def Let_def)

lemma Tree_linked: "Tree linked_fs [''tmp''] default_args = Inr linked_tree"
  by (simp add: Tree_def linked_fs_def default_args_def linked_tree_def generate_tree.simps
      expand_def iterdir_def should_include_def increment_counts_def startswith_def name_def
      is_dir_def is_file_def add_child_def insort_def list_insert_def lt_def len_def Let_def)

lemma Tree_stale: "Tree stale_fs [''tmp''] default_args = Inl OSError"
  by (simp add: Tree_def stale_fs_def linked_fs_def default_args_def generate_tree.simps
      expand_def iterdir_def should_include_def increment_counts_def startswith_def name_def
      is_dir_def is_file_def add_child_def insort_def list_insert_def lt_def len_def Let_def)

lemma expand_loop_linked:
  "expand_loop linked_fs
       [[''tmp'', ''notes.txt''], [''tmp'', ''link''], [''tmp'', ''more.txt'']]
       (linked_tree\<lparr>root := TreeNode [''tmp''] [], file_count := 0\<rparr>) (TreeNode [''tmp''] [])
     = (Some PermissionError, linked_tree\<lparr>root := TreeNode [''tmp''] []\<rparr>,
        TreeNode [''tmp''] [TreeNode [''tmp'', ''notes.txt''] []])"
  by (simp add: linked_fs_def default_args_def linked_tree_def
      should_include_def increment_counts_def startswith_def name_def
      is_dir_def is_file_def add_child_def insort_def list_insert_def lt_def len_def Let_def)

text \<open>
  C8, as stated, says that the permission error of a listing is the only error recovered
  and that every other error raised during a build reaches the top level. In the example
  the query on the entry \<open>link\<close> raises a permission error after \<open>notes.txt\<close> has been
  counted and added; the loop of \<open>expand\<close> ends there, and the build returns the tree with
  that one child and a count of files of 1.
\<close>

theorem recovered_query_error_counterexample:
  "listdir linked_fs [''tmp''] = Inr [''notes.txt'', ''link'', ''more.txt''] \<and>
   is_dir linked_fs [''tmp'', ''link''] = Inl PermissionError \<and>
   increment_counts linked_fs (linked_tree\<lparr>root := TreeNode [''tmp''] []\<rparr>) [''tmp'', ''link'']
     = Inl PermissionError \<and>
   expand_loop linked_fs
       [[''tmp'', ''notes.txt''], [''tmp'', ''link''], [''tmp'', ''more.txt'']]
       (linked_tree\<lparr>root := TreeNode [''tmp''] [], file_count := 0\<rparr>) (TreeNode [''tmp''] [])
     = (Some PermissionError, linked_tree\<lparr>root := TreeNode [''tmp''] []\<rparr>,
        TreeNode [''tmp''] [TreeNode [''tmp'', ''notes.txt''] []]) \<and>
   Tree linked_fs [''tmp''] default_args = Inr linked_tree"
  by (simp add: Tree_def linked_fs_def default_args_def linked_tree_def generate_tree.simps
      expand_def iterdir_def should_include_def increment_counts_def startswith_def name_def
      is_dir_def is_file_def add_child_def insort_def list_insert_def lt_def len_def Let_def)

text \<open>
  C8, amended. When the listing of a directory fails with a permission error, \<open>expand\<close>
  returns the counters and the node as they are, and the children that follow the
  directory are generated from the same counters, the directory staying in the tree
  without children. A permission error raised by the query on an entry while a directory
  is expanded is recovered as well: the loop ends at that entry, and \<open>expand\<close> returns the
  counters and the children reached before it. No other error is caught: \<open>expand\<close> fails
  exactly with the errors other than the permission error that the listing or the loop
  raises, generating a node or a list of children fails exactly when the expansion, the
  query on a child or a generation inside fails, with the same error, and the build fails
  exactly when the generation from the root does. A permission error never reaches the
  top level: the one query made outside \<open>expand\<close> is on a child that was counted, for
  which the same query has answered.
\<close>

theorem permission_errors_are_recovered:
  "(listdir fs (state nodeA) = Inl PermissionError \<longrightarrow>
      expand fs selfA nodeA = Inr (selfA, nodeA)) \<and>
   (is_dir fs p = Inr True \<and> listdir fs p = Inl PermissionError \<longrightarrow>
      generate_children fs selfA (TreeNode p [] # siblings) levelA =
        (case generate_children fs selfA siblings levelA of
           Inl e \<Rightarrow> Inl e
         | Inr (self2, rest1) \<Rightarrow> Inr (self2, TreeNode p [] # rest1))) \<and>
   (should_include fs selfB c = Inl err \<or>
    (should_include fs selfB c = Inr True \<and> increment_counts fs selfB c = Inl err) \<longrightarrow>
      expand_loop fs (c # cs) selfB nodeB = (Some err, selfB, nodeB)) \<and>
   (iterdir fs (state nodeC) = Inr entries \<and>
    expand_loop fs entries selfC nodeC = (Some PermissionError, selfD, nodeD) \<longrightarrow>
      expand fs selfC nodeC = Inr (selfD, nodeD)) \<and>
   ((expand fs self node = Inl e) =
      (e \<noteq> PermissionError \<and>
       (listdir fs (state node) = Inl e \<or>
        (\<exists>entries self1 node1. iterdir fs (state node) = Inr entries \<and>
           expand_loop fs entries self node = (Some e, self1, node1))))) \<and>
   ((generate_tree fs self node level = Inl e) =
      (\<not> full self \<and> Some level \<noteq> max_depth (args self) \<and>
       (expand fs self node = Inl e \<or>
        (\<exists>self1 node1. expand fs self node = Inr (self1, node1) \<and>
           generate_children fs self1 (children node1) level = Inl e)))) \<and>
   ((generate_children fs self (child # rest) level = Inl e) =
      (is_dir fs (state child) = Inl e \<or>
       (is_dir fs (state child) = Inr True \<and>
         (generate_tree fs self child (level + 1) = Inl e \<or>
          (\<exists>self1 child1. generate_tree fs self child (level + 1) = Inr (self1, child1) \<and>
             generate_children fs self1 rest level = Inl e))) \<or>
       (is_dir fs (state child) = Inr False \<and> generate_children fs self rest level = Inl e))) \<and>
   ((Tree fs dir ar = Inl e) =
      (generate_tree fs \<lparr>directory = dir, args = ar, root = TreeNode dir [],
          dir_count = 0, file_count = 0, full = False\<rparr> (TreeNode dir []) 0 = Inl e)) \<and>
   Tree fs dir ar \<noteq> Inl PermissionError"
  using expand_permission_error[of fs nodeA selfA]
    denied_child_is_skipped[of fs p selfA siblings levelA]
    expand_loop_raise_first[of fs selfB c err cs nodeB]
    expand_recovers[of fs nodeC entries selfC selfD nodeD]
    expand_Inl[of fs self node e] generate_tree_Inl[of fs self node level e]
    generate_children_Inl[of fs self child rest level e] Tree_Inl[of fs dir ar e]
    Tree_not_permission_error[of fs dir ar]
  by (simp del: generate_children.simps expand_loop.simps)

theorem permission_errors_are_recovered_witness:
  "listdir locked_fs (state (TreeNode [''tmp'', ''secret''] [])) = Inl PermissionError \<and>
   is_dir locked_fs [''tmp'', ''secret''] = Inr True \<and>
   expand locked_fs example_tree (TreeNode [''tmp'', ''secret''] [])
     = Inr (example_tree, TreeNode [''tmp'', ''secret''] []) \<and>
   generate_children locked_fs example_tree
       [TreeNode [''tmp'', ''secret''] [], TreeNode [''tmp'', ''open''] []] 0
     = Inr (example_tree\<lparr>file_count := 4\<rparr>,
            [TreeNode [''tmp'', ''secret''] [],
             TreeNode [''tmp'', ''open''] [TreeNode [''tmp'', ''open'', ''file.txt''] []]]) \<and>
   Tree locked_fs [''tmp''] default_args = Inr locked_tree \<and>
   Tree broken_fs [''tmp''] default_args = Inl OSError \<and>
   should_include linked_fs (linked_tree\<lparr>root := TreeNode [''tmp''] []\<rparr>) [''tmp'', ''link'']
     = Inr True \<and>
   increment_counts linked_fs (linked_tree\<lparr>root := TreeNode [''tmp''] []\<rparr>) [''tmp'', ''link'']
     = Inl PermissionError \<and>
   expand_loop linked_fs [[''tmp'', ''link''], [''tmp'', ''more.txt'']]
       (linked_tree\<lparr>root := TreeNode [''tmp''] []\<rparr>)
       (TreeNode [''tmp''] [TreeNode [''tmp'', ''notes.txt''] []])
     = (Some PermissionError, linked_tree\<lparr>root := TreeNode [''tmp''] []\<rparr>,
        TreeNode [''tmp''] [TreeNode [''tmp'', ''notes.txt''] []]) \<and>
   iterdir linked_fs (state (TreeNode [''tmp''] []))
     = Inr [[''tmp'', ''notes.txt''], [''tmp'', ''link''], [''tmp'', ''more.txt'']] \<and>
   expand linked_fs (linked_tree\<lparr>root := TreeNode [''tmp''] [], file_count := 0\<rparr>)
       (TreeNode [''tmp''] [])
     = Inr (linked_tree\<lparr>root := TreeNode [''tmp''] []\<rparr>,
            TreeNode [''tmp''] [TreeNode [''tmp'', ''notes.txt''] []]) \<and>
   Tree linked_fs [''tmp''] default_args = Inr linked_tree \<and>
   Tree stale_fs [''tmp''] default_args = Inl OSError"
proof -
  let ?s = "linked_tree\<lparr>root := TreeNode [''tmp''] []\<rparr>"
  let ?n = "TreeNode [''tmp''] [TreeNode [''tmp'', ''notes.txt''] []]"
  have 1: "listdir locked_fs (state (TreeNode [''tmp'', ''secret''] [])) = Inl PermissionError"
    by (simp add: locked_fs_def)
  have 2: "is_dir locked_fs [''tmp'', ''secret''] = Inr True"
    by (simp add: locked_fs_def is_dir_def)
  have 3: "listdir locked_fs [''tmp'', ''secret''] = Inl PermissionError"
    by (simp add: locked_fs_def)
  have 4: "generate_children locked_fs example_tree [TreeNode [''tmp'', ''open''] []] 0
     = Inr (example_tree\<lparr>file_count := 4\<rparr>,
            [TreeNode [''tmp'', ''open''] [TreeNode [''tmp'', ''open'', ''file.txt''] []]])"
    by (simp add: locked_fs_def default_args_def example_tree_def generate_tree.simps
      expand_def iterdir_def should_include_def increment_counts_def startswith_def name_def
      is_dir_def is_file_def add_child_def insort_def list_insert_def lt_def len_def Let_def)
  have 5: "should_include linked_fs ?s [''tmp'', ''link''] = Inr True"
    by (simp add: should_include_def linked_tree_def default_args_def startswith_def name_def)
  have 6: "increment_counts linked_fs ?s [''tmp'', ''link''] = Inl PermissionError"
    by (simp add: increment_counts_def is_dir_def linked_fs_def)
  have 7: "iterdir linked_fs (state (TreeNode [''tmp''] []))
     = Inr [[''tmp'', ''notes.txt''], [''tmp'', ''link''], [''tmp'', ''more.txt'']]"
    by (simp add: iterdir_def linked_fs_def)
  note a = permission_errors_are_recovered [where fs = locked_fs
      and nodeA = "TreeNode [''tmp'', ''secret''] []" and selfA = example_tree
      and p = "[''tmp'', ''secret'']" and siblings = "[TreeNode [''tmp'', ''open''] []]"
      and levelA = 0]
  note b = permission_errors_are_recovered [where fs = linked_fs
      and selfB = ?s and c = "[''tmp'', ''link'']" and err = PermissionError
      and cs = "[[''tmp'', ''more.txt'']]" and nodeB = ?n
      and nodeC = "TreeNode [''tmp''] []"
      and entries = "[[''tmp'', ''notes.txt''], [''tmp'', ''link''], [''tmp'', ''more.txt'']]"
      and selfC = "linked_tree\<lparr>root := TreeNode [''tmp''] [], file_count := 0\<rparr>"
      and selfD = ?s and nodeD = ?n]
  from a 1 2 3 4 have A:
    "expand locked_fs example_tree (TreeNode [''tmp'', ''secret''] [])
       = Inr (example_tree, TreeNode [''tmp'', ''secret''] []) \<and>
     generate_children locked_fs example_tree
         [TreeNode [''tmp'', ''secret''] [], TreeNode [''tmp'', ''open''] []] 0
       = Inr (example_tree\<lparr>file_count := 4\<rparr>,
              [TreeNode [''tmp'', ''secret''] [],
               TreeNode [''tmp'', ''open''] [TreeNode [''tmp'', ''open'', ''file.txt''] []]])"
    by (simp del: generate_children.simps expand_loop.simps)
  from b 5 6 7 expand_loop_linked have B:
    "expand_loop linked_fs [[''tmp'', ''link''], [''tmp'', ''more.txt'']] ?s ?n
       = (Some PermissionError, ?s, ?n) \<and>
     expand linked_fs (linked_tree\<lparr>root := TreeNode [''tmp''] [], file_count := 0\<rparr>)
         (TreeNode [''tmp''] [])
       = Inr (?s, ?n)"
    by (simp del: generate_children.simps expand_loop.simps)
  from A B 1 2 5 6 7 Tree_locked Tree_broken Tree_linked Tree_stale show ?thesis
    by (simp del: generate_children.simps expand_loop.simps)
qed

section \<open>Directories only\<close>

lemma should_include_directories_only:
  assumes "d (args self)" and "kind_of fs c \<noteq> Inr Other" and "should_include fs self c = Inr True"
  shows "is_dir fs c = Inr True"
proof (cases "kind_of fs c")
  case (Inl e)
  with assms(1,3) show ?thesis
    by (simp add: should_include_def is_file_def split: if_splits)
next
  case (Inr k)
  with assms show ?thesis
    by (cases k) (simp_all add: should_include_def is_file_def is_dir_def split: if_splits)
qed

lemma increment_counts_directory:
  "is_dir fs c = Inr True \<Longrightarrow> increment_counts fs self c = Inr s \<Longrightarrow>
     file_count s = file_count self"
  by (auto simp add: increment_counts_def Let_def)

lemma expand_loop_directories_only:
  "d (args self) \<Longrightarrow> \<forall>c \<in> set cs. kind_of fs c \<noteq> Inr Other \<Longrightarrow>
   expand_loop fs cs self node = (r, self1, node1) \<Longrightarrow> file_count self1 = file_count self"
proof (induction cs arbitrary: self node)
  case Nil
  then show ?case by simp
next
  case (Cons c cs)
  from Cons.prems(3) show ?case
  proof (cases rule: expand_loop_Cons_cases)
    case (raise_filter e)
    then show ?thesis by simp
  next
    case skip
    from Cons.IH[OF Cons.prems(1) _ skip(2)] Cons.prems(2) show ?thesis by simp
  next
    case (raise_count e)
    then show ?thesis by simp
  next
    case trip
    from should_include_directories_only[OF Cons.prems(1) _ trip(1)] Cons.prems(2)
    have "is_dir fs c = Inr True" by simp
    from increment_counts_directory[OF this trip(2)] show ?thesis .
  next
    case (add s)
    from should_include_directories_only[OF Cons.prems(1) _ add(1)] Cons.prems(2)
    have "is_dir fs c = Inr True" by simp
    from increment_counts_directory[OF this add(2)]
    have fc: "file_count s = file_count self" .
    have "d (args s)" using increment_counts_args[OF add(2)] Cons.prems(1) by simp
    from Cons.IH[OF this _ add(4)] Cons.prems(2) fc show ?thesis by simp
  qed
qed

lemma expand_directories_only:
  assumes "d (args self)" and "\<forall>p. kind_of fs p \<noteq> Inr Other"
    and "expand fs self node = Inr (self1, node1)"
  shows "file_count self1 = file_count self"
  using assms(3)
proof (cases rule: expand_Inr_cases)
  case denied
  then show ?thesis by simp
next
  case (listed entries r)
  with assms(1,2) show ?thesis
    using expand_loop_directories_only[of self entries fs node r self1 node1] by simp
qed

lemma generate_directories_only:
  "generate_tree fs self node level = Inr (self', node') \<Longrightarrow>
     d (args self) \<Longrightarrow> \<forall>p. kind_of fs p \<noteq> Inr Other \<Longrightarrow> file_count self' = file_count self"
  "generate_children fs self cs level = Inr (self', cs') \<Longrightarrow>
     d (args self) \<Longrightarrow> \<forall>p. kind_of fs p \<noteq> Inr Other \<Longrightarrow> file_count self' = file_count self"
proof (induction fs self node level and fs self cs level arbitrary: self' node' and self' cs'
    rule: generate_tree_generate_children.induct)
  case (1 fs self node level)
  from "1.prems"(1) show ?case
  proof (cases rule: generate_tree_Inr_cases)
    case stop
    then show ?thesis by simp
  next
    case (go self1 node1 cs)
    have d1: "d (args self1)" using expand_args[OF go(2)] "1.prems"(2) by simp
    from "1.IH"[OF go(1,2) refl go(3) d1 "1.prems"(3)]
      expand_directories_only[OF "1.prems"(2,3) go(2)]
    show ?thesis by simp
  qed
next
  case (2 fs self level)
  then show ?case by simp
next
  case (3 fs self child rest level)
  from "3.prems"(1) show ?case
  proof (cases rule: generate_children_Inr_cases)
    case (dir self1 child1 rest1)
    have d1: "d (args self1)" using generate_args(1)[OF dir(2)] "3.prems"(2) by simp
    from "3.IH"(1)[OF dir(1) TrueI dir(2) "3.prems"(2,3)]
      "3.IH"(2)[OF dir(1) TrueI dir(2) refl dir(3) d1 "3.prems"(3)]
    show ?thesis by simp
  next
    case (other rest1)
    from "3.IH"(3)[OF other(1) not_False other(2) "3.prems"(2,3)] show ?thesis .
  qed
qed

text \<open>
  Where no entry is found to be something other than a directory or a regular file, a
  build with \<open>d\<close> set counts no file.
\<close>

lemma Tree_directories_only:
  assumes "d ar" and "\<forall>p. kind_of fs p \<noteq> Inr Other" and "Tree fs dir ar = Inr t"
  shows "file_count t = 0"
proof -
  let ?s = "\<lparr>directory = dir, args = ar, root = TreeNode dir [],
               dir_count = 0, file_count = 0, full = False\<rparr>"
  from assms(3) obtain self1 node1 where
    g: "generate_tree fs ?s (TreeNode dir []) 0 = Inr (self1, node1)" and
    eq: "t = self1\<lparr>root := node1\<rparr>"
    by (rule Tree_Inr)
  from generate_directories_only(1)[OF g _ assms(2)] assms(1) eq show ?thesis by simp
qed

text \<open>
  C7 says that with \<open>d\<close> set the count of files is 0 for every directory structure. An
  entry that is neither a directory nor a regular file passes the filter, which excludes
  what \<open>is_file\<close> accepts, and is counted as a file, since \<open>is_dir\<close> rejects it: a
  directory that holds one FIFO gives one node and a count of files of 1.
\<close>

theorem directories_only_counts_special_file:
  "Tree special_fs [''tmp''] (default_args\<lparr>d := True\<rparr>)
     = Inr \<lparr>directory = [''tmp''], args = default_args\<lparr>d := True\<rparr>,
            root = TreeNode [''tmp''] [TreeNode [''tmp'', ''pipe''] []],
            dir_count = 0, file_count = 1, full = False\<rparr>"
  by (simp add: Tree_def special_fs_def default_args_def generate_tree.simps
      expand_def iterdir_def should_include_def increment_counts_def startswith_def name_def
      is_dir_def is_file_def add_child_def insort_def list_insert_def lt_def len_def Let_def)

section \<open>The XML document\<close>

lemma collect_results_append:
  "collect_results (xs @ ys) =
     (case collect_results xs of
        Inl e \<Rightarrow> Inl e
      | Inr vs \<Rightarrow> (case collect_results ys of Inl e \<Rightarrow> Inl e | Inr ws \<Rightarrow> Inr (vs @ ws)))"
  by (induction xs) (simp_all split: sum.splits)

lemma collect_results_Inr:
  "collect_results xs = Inr vs \<longleftrightarrow> list_all2 (\<lambda>x v. x = Inr v) xs vs"
proof
  show "collect_results xs = Inr vs \<Longrightarrow> list_all2 (\<lambda>x v. x = Inr v) xs vs"
    by (induction xs arbitrary: vs) (auto split: sum.splits)
  show "list_all2 (\<lambda>x v. x = Inr v) xs vs \<Longrightarrow> collect_results xs = Inr vs"
    by (induction rule: list_all2_induct) simp_all
qed

lemma collect_results_total:
  "(\<forall>x \<in> set xs. \<exists>v. x = Inr v) \<Longrightarrow> \<exists>vs. collect_results xs = Inr vs"
  by (induction xs) auto

lemma build_children_collect:
  "build_children fs cs element =
     (case collect_results (map (build_xml_element fs) cs) of
        Inl e \<Rightarrow> Inl e
      | Inr els \<Rightarrow> Inr (Element (tag element) (attrib element) (elems element @ els)))"
proof (induction cs arbitrary: element)
  case Nil
  then show ?case by (cases element) simp
next
  case (Cons c cs)
  then show ?case by (simp add: append_def split: sum.splits)
qed

lemma build_xml_element_node:
  "build_xml_element fs node =
     (case is_dir fs (state node) of
        Inl e \<Rightarrow> Inl e
      | Inr is_folder \<Rightarrow>
          (case collect_results (map (build_xml_element fs) (children node)) of
             Inl e \<Rightarrow> Inl e
           | Inr els \<Rightarrow>
               Inr (Element ''node''
                      [(''name'', name (state node) @ (if is_folder then ''/'' else []))] els)))"
  by (cases node) (simp add: Let_def build_children_collect split: sum.splits)

lemma collect_results_concat:
  "collect_results (map g cs) = Inr els \<Longrightarrow>
   \<forall>c \<in> set cs. collect_results (map g (nodes c))
       = (case g c of Inl e \<Rightarrow> Inl e | Inr el \<Rightarrow> Inr (elements el)) \<Longrightarrow>
   collect_results (map g (concat (map nodes cs))) = Inr (concat (map elements els))"
proof (induction cs arbitrary: els)
  case Nil
  then show ?case by simp
next
  case (Cons c cs)
  from Cons.prems(1) obtain el rest where
    c: "g c = Inr el" and r: "collect_results (map g cs) = Inr rest" and e: "els = el # rest"
    by (auto split: sum.splits)
  from Cons.prems(2) c have n: "collect_results (map g (nodes c)) = Inr (elements el)" by simp
  from Cons.IH[OF r] Cons.prems(2)
  have "collect_results (map g (concat (map nodes cs))) = Inr (concat (map elements rest))"
    by simp
  with n e show ?case by (simp add: collect_results_append)
qed

lemma elements_build_xml_element:
  "collect_results (map (build_xml_element fs) (nodes node)) =
     (case build_xml_element fs node of Inl e \<Rightarrow> Inl e | Inr el \<Rightarrow> Inr (elements el))"
proof (induction node rule: nodes.induct)
  case (1 p cs)
  show ?case
  proof (cases "build_xml_element fs (TreeNode p cs)")
    case (Inl e)
    then show ?thesis by simp
  next
    case (Inr el)
    with build_xml_element_node[of fs "TreeNode p cs"] obtain b els where
      c: "collect_results (map (build_xml_element fs) cs) = Inr els" and
      el: "el = Element ''node'' [(''name'', name p @ (if b then ''/'' else []))] els"
      by (auto split: sum.splits)
    from collect_results_concat[OF c] 1
    have "collect_results (map (build_xml_element fs) (concat (map nodes cs)))
            = Inr (concat (map elements els))"
      by simp
    with Inr el show ?thesis by simp
  qed
qed

lemma elements_nodes:
  assumes "build_xml_element fs node = Inr el"
  shows "list_all2 (\<lambda>n e. build_xml_element fs n = Inr e) (nodes node) (elements el)"
proof -
  from elements_build_xml_element[of fs node] assms
  have "list_all2 (\<lambda>x v. x = Inr v) (map (build_xml_element fs) (nodes node)) (elements el)"
    by (simp add: collect_results_Inr)
  then show ?thesis by (simp add: list_all2_map1)
qed

lemma build_xml_element_total:
  "\<forall>n \<in> set (nodes node). known fs (state n) \<Longrightarrow> \<exists>el. build_xml_element fs node = Inr el"
proof (induction node rule: nodes.induct)
  case (1 p cs)
  from "1.prems" have "known fs p" by simp
  then obtain b where b: "is_dir fs p = Inr b" using known_is_dir by blast
  have "\<forall>x \<in> set (map (build_xml_element fs) cs). \<exists>v. x = Inr v"
    using 1 by auto
  then obtain els where "collect_results (map (build_xml_element fs) cs) = Inr els"
    using collect_results_total by blast
  with b build_xml_element_node[of fs "TreeNode p cs"] show ?case by simp
qed

lemma build_xml_element_Tree:
  assumes "Tree fs dir ar = Inr t" and "known fs dir"
  shows "\<exists>el. build_xml_element fs (root t) = Inr el"
proof -
  let ?s = "\<lparr>directory = dir, args = ar, root = TreeNode dir [],
               dir_count = 0, file_count = 0, full = False\<rparr>"
  from assms(1) obtain self1 node1 where
    g: "generate_tree fs ?s (TreeNode dir []) 0 = Inr (self1, node1)" and
    eq: "t = self1\<lparr>root := node1\<rparr>"
    by (rule Tree_Inr)
  from generate_state(1)[OF g] eq have st: "state (root t) = dir" by simp
  have "nodes (root t) = root t # concat (map nodes (children (root t)))"
    by (cases "root t") simp
  with Tree_known[OF assms(1)] st assms(2)
  have "\<forall>n \<in> set (nodes (root t)). known fs (state n)" by simp
  then show ?thesis by (rule build_xml_element_total)
qed

lemma save_xml_link:
  "save_xml fs toprettyxml self file_path =
     (case build_xml_element fs (root self) of
        Inl e \<Rightarrow> Inl e
      | Inr el \<Rightarrow> (case toprettyxml el of Inl e \<Rightarrow> Inl e | Inr doc \<Rightarrow> Inr (file_path, doc)))"
  by (simp add: save_xml_def)

lemma save_xml_Inr:
  "(save_xml fs toprettyxml self file_path = Inr (written, doc)) =
     (written = file_path \<and>
      (\<exists>el. build_xml_element fs (root self) = Inr el \<and> toprettyxml el = Inr doc))"
  by (auto simp add: save_xml_def split: sum.splits)

lemma save_xml_counts:
  "save_xml fs toprettyxml (self\<lparr>dir_count := dc, file_count := fc, full := fl\<rparr>) file_path
     = save_xml fs toprettyxml self file_path"
  by (simp add: save_xml_def)

text \<open>The element built from the example.\<close>

lemma build_xml_element_example:
  "build_xml_element example_fs (root example_tree) =
     Inr (Element ''node'' [(''name'', ''tmp/'')]
       [Element ''node'' [(''name'', ''folder1/'')]
          [Element ''node'' [(''name'', ''file1.txt'')] [],
           Element ''node'' [(''name'', ''file2.txt'')] []],
        Element ''node'' [(''name'', ''folder2/'')]
          [Element ''node'' [(''name'', ''subfolder1/'')]
             [Element ''node'' [(''name'', ''file3.txt'')] []]]])"
  by (simp add: example_tree_def example_fs_def is_dir_def name_def append_def Let_def)

text \<open>
  C6. \<open>save_xml\<close> writes to the given file what the serialiser makes of the element built
  from the root of the tree, and fails when building the element or serialising it fails.
  The element built for a node has the tag \<open>node\<close>, the one attribute \<open>name\<close>, whose
  value is the last component of the node's path with \<open>/\<close> added exactly when the node
  is a directory, and as child elements the elements built for the node's children, in
  their order; it fails with the first error of the query on the node or of a child. The
  elements of the document, in document order, are the elements built for the nodes of
  the tree in pre-order, one for each node. The element is built whenever the status
  query answers for every node, as it does for the tree of a finished build whose root
  directory it answers for. The document written does not change when the two counters
  and the flag are changed.
\<close>

theorem xml_mirrors_tree:
  "save_xml fs toprettyxml self file_path =
     (case build_xml_element fs (root self) of
        Inl e \<Rightarrow> Inl e
      | Inr el \<Rightarrow> (case toprettyxml el of Inl e \<Rightarrow> Inl e | Inr doc \<Rightarrow> Inr (file_path, doc))) \<and>
   ((save_xml fs toprettyxml self file_path = Inr (written, doc)) =
      (written = file_path \<and>
       (\<exists>el. build_xml_element fs (root self) = Inr el \<and> toprettyxml el = Inr doc))) \<and>
   build_xml_element fs node =
     (case is_dir fs (state node) of
        Inl e \<Rightarrow> Inl e
      | Inr is_folder \<Rightarrow>
          (case collect_results (map (build_xml_element fs) (children node)) of
             Inl e \<Rightarrow> Inl e
           | Inr els \<Rightarrow>
               Inr (Element ''node''
                      [(''name'', name (state node) @ (if is_folder then ''/'' else []))] els))) \<and>
   (build_xml_element fs node = Inr element \<longrightarrow>
      list_all2 (\<lambda>n e. build_xml_element fs n = Inr e) (nodes node) (elements element) \<and>
      length (elements element) = length (nodes node)) \<and>
   ((\<forall>n \<in> set (nodes node). known fs (state n)) \<longrightarrow>
      (\<exists>el. build_xml_element fs node = Inr el)) \<and>
   (Tree fs dir ar = Inr t \<and> known fs dir \<longrightarrow> (\<exists>el. build_xml_element fs (root t) = Inr el)) \<and>
   save_xml fs toprettyxml (self\<lparr>dir_count := dc, file_count := fc, full := fl\<rparr>) file_path
     = save_xml fs toprettyxml self file_path"
proof -
  have "build_xml_element fs node = Inr element \<Longrightarrow>
      list_all2 (\<lambda>n e. build_xml_element fs n = Inr e) (nodes node) (elements element) \<and>
      length (elements element) = length (nodes node)"
    using elements_nodes[of fs node element] by (auto dest: list_all2_lengthD)
  moreover have "(\<forall>n \<in> set (nodes node). known fs (state n)) \<Longrightarrow>
      (\<exists>el. build_xml_element fs node = Inr el)"
    by (rule build_xml_element_total)
  moreover have "Tree fs dir ar = Inr t \<and> known fs dir \<Longrightarrow>
      (\<exists>el. build_xml_element fs (root t) = Inr el)"
    using build_xml_element_Tree[of fs dir ar t] by simp
  moreover note save_xml_link[of fs toprettyxml self file_path]
    save_xml_Inr[of fs toprettyxml self file_path written doc]
    build_xml_element_node[of fs node]
    save_xml_counts[where fs = fs and toprettyxml = toprettyxml and self = self and dc = dc
      and fc = fc and fl = fl and file_path = file_path]
  ultimately show ?thesis by blast
qed

theorem xml_mirrors_tree_witness:
  "build_xml_element example_fs (root example_tree) =
     Inr (Element ''node'' [(''name'', ''tmp/'')]
       [Element ''node'' [(''name'', ''folder1/'')]
          [Element ''node'' [(''name'', ''file1.txt'')] [],
           Element ''node'' [(''name'', ''file2.txt'')] []],
        Element ''node'' [(''name'', ''folder2/'')]
          [Element ''node'' [(''name'', ''subfolder1/'')]
             [Element ''node'' [(''name'', ''file3.txt'')] []]]]) \<and>
   list_all (\<lambda>n. known example_fs (state n)) (nodes (root example_tree)) \<and>
   length (nodes (root example_tree)) = 7 \<and>
   Tree example_fs [''tmp''] default_args = Inr example_tree \<and>
   known example_fs [''tmp''] \<and>
   save_xml example_fs (\<lambda>el. Inr (concat (map (\<lambda>x. snd (hd (attrib x)) @ '' '') (elements el))))
       example_tree [''out.xml'']
     = Inr ([''out.xml''], ''tmp/ folder1/ file1.txt file2.txt folder2/ subfolder1/ file3.txt '')"
proof -
  let ?el = "Element ''node'' [(''name'', ''tmp/'')]
       [Element ''node'' [(''name'', ''folder1/'')]
          [Element ''node'' [(''name'', ''file1.txt'')] [],
           Element ''node'' [(''name'', ''file2.txt'')] []],
        Element ''node'' [(''name'', ''folder2/'')]
          [Element ''node'' [(''name'', ''subfolder1/'')]
             [Element ''node'' [(''name'', ''file3.txt'')] []]]]"
  let ?ser = "\<lambda>el. Inr (concat (map (\<lambda>x. snd (hd (attrib x)) @ '' '') (elements el)))
                :: error + string"
  have k: "list_all (\<lambda>n. known example_fs (state n)) (nodes (root example_tree))"
    by (simp add: example_tree_def example_fs_def known_def)
  have k0: "known example_fs [''tmp'']"
    by (simp add: example_fs_def known_def)
  note th = xml_mirrors_tree [where fs = example_fs and node = "root example_tree"
      and element = ?el and dir = "[''tmp'']" and ar = default_args and t = example_tree
      and self = example_tree and toprettyxml = ?ser and file_path = "[''out.xml'']"
      and written = "[''out.xml'']"
      and doc = "''tmp/ folder1/ file1.txt file2.txt folder2/ subfolder1/ file3.txt ''"]
  from th build_xml_element_example k k0 Tree_example
  have "length (elements ?el) = length (nodes (root example_tree)) \<and>
        save_xml example_fs ?ser example_tree [''out.xml'']
          = Inr ([''out.xml''],
                 ''tmp/ folder1/ file1.txt file2.txt folder2/ subfolder1/ file3.txt '')"
    by (simp add: list_all_iff)
  with build_xml_element_example k k0 Tree_example show ?thesis by simp
qed

section \<open>The text diagram\<close>

lemma highlighted_label:
  "label fs self child = Inr nm \<Longrightarrow>
     highlighted fs col self child
       = (if is_file fs (state child) = Inr True then Fore_GREEN col else Fore_YELLOW col)
           @ nm @ Style_RESET_ALL col"
  by (simp add: highlighted_def)

lemma diagram_last:
  "diagram lab branch [child] =
     branch @ last_connector @ lab child @ newline
       @ diagram lab (branch @ last_indent) (children child)"
  by (cases child) simp

lemma diagram_inner:
  "rest \<noteq> [] \<Longrightarrow> diagram lab branch (child # rest) =
     branch @ inner_connector @ lab child @ newline
       @ diagram lab (branch @ inner_indent) (children child)
       @ diagram lab branch rest"
  by (cases child; cases rest) simp_all

lemma format_diagram:
  "format_tree fs col self node branch = Inr body \<Longrightarrow>
     body = diagram (highlighted fs col self) branch (children node)"
  "format_loop fs col self n branch k cs = Inr body \<Longrightarrow> n = k + int (length cs) \<Longrightarrow>
     body = diagram (highlighted fs col self) branch cs"
proof (induction fs col self node branch and fs col self n branch k cs arbitrary: body and body
    rule: format_tree_format_loop.induct)
  case (1 fs col self p cs branch)
  then show ?case by simp
next
  case (2 fs col self n branch k)
  then show ?case by simp
next
  case (3 fs col self n branch k child rest)
  let ?item = "branch @ (if k = n - 1 then last_connector else inner_connector)"
  let ?new = "branch @ (if k = n - 1 then last_indent else inner_indent)"
  from "3.prems"(1) obtain nm regular sub others where
    l: "label fs self child = Inr nm" and
    fi: "is_file fs (state child) = Inr regular" and
    s: "format_tree fs col self child ?new = Inr sub" and
    r: "format_loop fs col self n branch (k + 1) rest = Inr others" and
    b: "body = (?item @ (if regular then Fore_GREEN col else Fore_YELLOW col) @ nm
                  @ Style_RESET_ALL col @ newline) @ sub @ others"
    by (auto simp add: Let_def split: sum.splits)
  have sub: "sub = diagram (highlighted fs col self) ?new (children child)"
    by (rule "3.IH"(1)[OF refl l fi refl refl refl s])
  have others: "others = diagram (highlighted fs col self) branch rest"
    using "3.prems"(2) by (intro "3.IH"(2)[OF refl l fi refl refl refl s r]) simp
  have last: "k = n - 1 \<longleftrightarrow> rest = []"
    using "3.prems"(2) by auto
  show ?case
  proof (cases "rest = []")
    case True
    with last b sub others fi show ?thesis
      by (simp add: diagram_last highlighted_label[OF l])
  next
    case False
    with last b sub others fi show ?thesis
      by (simp add: diagram_inner highlighted_label[OF l])
  qed
qed

lemma format_total:
  "\<forall>n \<in> set (concat (map nodes (children node))).
       (\<exists>nm. label fs self n = Inr nm) \<and> known fs (state n) \<Longrightarrow>
     \<exists>body. format_tree fs col self node branch = Inr body"
  "\<forall>n \<in> set (concat (map nodes cs)).
       (\<exists>nm. label fs self n = Inr nm) \<and> known fs (state n) \<Longrightarrow>
     \<exists>body. format_loop fs col self n branch k cs = Inr body"
proof (induction fs col self node branch and fs col self n branch k cs
    rule: format_tree_format_loop.induct)
  case (1 fs col self p cs branch)
  then show ?case by simp
next
  case (2 fs col self n branch k)
  then show ?case by simp
next
  case (3 fs col self n branch k child rest)
  let ?new = "branch @ (if k = n - 1 then last_indent else inner_indent)"
  have "child \<in> set (nodes child)" by (cases child) simp
  with "3.prems" obtain nm where l: "label fs self child = Inr nm"
    and kn: "known fs (state child)" by auto
  from known_is_file[OF kn] obtain regular where fi: "is_file fs (state child) = Inr regular"
    by blast
  have "\<forall>n \<in> set (concat (map nodes (children child))).
          (\<exists>nm. label fs self n = Inr nm) \<and> known fs (state n)"
    using "3.prems" by (cases child) auto
  from "3.IH"(1)[OF refl l fi refl refl refl this] obtain sub where
    s: "format_tree fs col self child ?new = Inr sub" by blast
  have "\<forall>n \<in> set (concat (map nodes rest)).
          (\<exists>nm. label fs self n = Inr nm) \<and> known fs (state n)"
    using "3.prems" by simp
  from "3.IH"(2)[OF refl l fi refl refl refl s this] obtain others where
    r: "format_loop fs col self n branch (k + 1) rest = Inr others" by blast
  from l fi s r show ?case by (simp add: Let_def)
qed

lemma label_under_directory:
  "take (length (directory self)) (state child) = directory self \<Longrightarrow>
     \<exists>nm. label fs self child = Inr nm"
  by (simp add: label_def relative_to_def)

lemma nodes_under_directory:
  "\<forall>n \<in> set (nodes node). enumeration_order fs t n \<Longrightarrow>
   take (length dir) (state node) = dir \<Longrightarrow>
   \<forall>n \<in> set (nodes node). take (length dir) (state n) = dir"
proof (induction node rule: nodes.induct)
  case (1 p cs)
  have p: "take (length dir) p = dir"
    using "1.prems"(2) by simp
  have "length (take (length dir) p) = length dir"
    by (simp only: p)
  then have len: "length dir \<le> length p"
    by (simp only: length_take)
  have sub: "\<forall>n \<in> set (nodes c). take (length dir) (state n) = dir" if c: "c \<in> set cs" for c
  proof -
    have e: "enumeration_order fs t (TreeNode p cs)"
      using "1.prems"(1) by simp
    from c have ne: "cs \<noteq> []" by auto
    from e ne obtain names where
      m: "map state cs = take (length cs) (filter (\<lambda>entry. should_include fs t entry = Inr True) (map (\<lambda>x. p @ [x]) names))"
      by (auto simp add: enumeration_order_def iterdir_def split: sum.splits)
    from c have "state c \<in> set (map state cs)" by simp
    then have "state c \<in> set (take (length cs) (filter (\<lambda>entry. should_include fs t entry = Inr True) (map (\<lambda>x. p @ [x]) names)))"
      by (simp only: m)
    then have "state c \<in> set (filter (\<lambda>entry. should_include fs t entry = Inr True) (map (\<lambda>x. p @ [x]) names))"
      by (rule in_set_takeD)
    then obtain x where x: "state c = p @ [x]" by auto
    have "take (length dir) (p @ [x]) = take (length dir) p"
      using len by simp
    then have pre: "take (length dir) (state c) = dir"
      by (simp only: x p)
    have en: "\<forall>n \<in> set (nodes c). enumeration_order fs t n"
      using "1.prems"(1) c by auto
    show ?thesis
      by (rule "1.IH"[OF c en pre])
  qed
  show ?case
  proof
    fix n assume "n \<in> set (nodes (TreeNode p cs))"
    then have "n = TreeNode p cs \<or> (\<exists>c \<in> set cs. n \<in> set (nodes c))"
      by auto
    then show "take (length dir) (state n) = dir"
    proof
      assume "n = TreeNode p cs"
      then show ?thesis by (simp add: p)
    next
      assume "\<exists>c \<in> set cs. n \<in> set (nodes c)"
      then obtain c where "c \<in> set cs" "n \<in> set (nodes c)" by blast
      with sub show ?thesis by blast
    qed
  qed
qed

lemma Tree_labels:
  assumes "Tree fs dir ar = Inr t"
  shows "\<forall>n \<in> set (nodes (root t)). \<exists>nm. label fs t n = Inr nm"
proof -
  let ?s = "\<lparr>directory = dir, args = ar, root = TreeNode dir [],
               dir_count = 0, file_count = 0, full = False\<rparr>"
  from assms obtain self1 node1 where
    g: "generate_tree fs ?s (TreeNode dir []) 0 = Inr (self1, node1)" and
    eq: "t = self1\<lparr>root := node1\<rparr>"
    by (rule Tree_Inr)
  have d: "directory t = dir"
    using generate_directory(1)[OF g] eq by simp
  have "state (root t) = dir"
    using generate_state(1)[OF g] eq by simp
  then have "take (length dir) (state (root t)) = dir" by simp
  from nodes_under_directory[OF Tree_enumeration_order[OF assms] this] d
  show ?thesis by (simp add: label_under_directory)
qed

lemma tree_str_layout:
  assumes "tree_str fs col self = Inr rendered"
  shows "rendered = Fore_BLUE col @ name (state (root self)) @ Style_RESET_ALL col @ newline
           @ diagram (highlighted fs col self) [] (children (root self))
           @ newline @ Fore_YELLOW col @ ''Directories: '' @ str_int (dir_count self) @ '', ''
           @ Fore_GREEN col @ ''Files: '' @ str_int (file_count self) @ Style_RESET_ALL col
           @ (if full self
              then Fore_RED col @ newline @ ''Output limited to 200 elements.''
                     @ Style_RESET_ALL col
              else [])"
proof -
  from assms obtain body where
    b: "format_tree fs col self (root self) [] = Inr body"
    by (auto simp add: tree_str_def Let_def split: sum.splits)
  from format_diagram(1)[OF b] assms b show ?thesis
    by (auto simp add: tree_str_def Let_def)
qed

lemma tree_str_total:
  assumes "Tree fs dir ar = Inr self"
  shows "\<exists>rendered. tree_str fs col self = Inr rendered"
proof -
  have "\<forall>n \<in> set (concat (map nodes (children (root self)))).
          (\<exists>nm. label fs self n = Inr nm) \<and> known fs (state n)"
    using Tree_labels[OF assms] Tree_known[OF assms] by (cases "root self") auto
  from format_total(1)[OF this] obtain body where
    "format_tree fs col self (root self) [] = Inr body" by blast
  then show ?thesis by (simp add: tree_str_def Let_def)
qed

text \<open>
  C5. The text of a tree is the header, the last component of the root's path followed by
  a line break; then the diagram of the root's children, one line for each node with the
  connector and the extension of the branch prefix chosen by whether the node is the last
  of its siblings; then an empty line and \<open>Directories: \<close>, the count of directories,
  \<open>, Files: \<close> and the count of files; and after that, exactly when the flag is set, a line
  break and \<open>Output limited to 200 elements.\<close> The escape sequences of the highlighting
  stand where the program writes them. Every built tree has a text.
\<close>

theorem text_layout:
  "(tree_str fs col self = Inr rendered \<longrightarrow>
      rendered = Fore_BLUE col @ name (state (root self)) @ Style_RESET_ALL col @ newline
           @ diagram (highlighted fs col self) [] (children (root self))
           @ newline @ Fore_YELLOW col @ ''Directories: '' @ str_int (dir_count self) @ '', ''
           @ Fore_GREEN col @ ''Files: '' @ str_int (file_count self) @ Style_RESET_ALL col
           @ (if full self
              then Fore_RED col @ newline @ ''Output limited to 200 elements.''
                     @ Style_RESET_ALL col
              else [])) \<and>
   (Tree fs dir ar = Inr self \<longrightarrow> (\<exists>rendered. tree_str fs col self = Inr rendered))"
  using tree_str_layout[of fs col self rendered] tree_str_total[of fs dir ar self col]
  by blast

lemma tree_str_example:
  "tree_str example_fs plain_colors example_tree =
     Inr (''tmp'' @ newline
       @ inner_connector @ ''folder1'' @ newline
       @ inner_indent @ inner_connector @ ''file1.txt'' @ newline
       @ inner_indent @ last_connector @ ''file2.txt'' @ newline
       @ last_connector @ ''folder2'' @ newline
       @ last_indent @ last_connector @ ''subfolder1'' @ newline
       @ last_indent @ last_indent @ last_connector @ ''file3.txt'' @ newline
       @ newline @ ''Directories: 3, Files: 3'')"
  by (simp add: tree_str_def example_tree_def example_fs_def plain_colors_def default_args_def
      label_def name_def is_file_def str_int_def digit_def Let_def)

lemma tree_str_capped_example:
  "tree_str example_fs plain_colors (capped_tree\<lparr>root := TreeNode [''tmp''] []\<rparr>) =
     Inr (''tmp'' @ newline @ newline @ ''Directories: 120, Files: 80''
       @ newline @ ''Output limited to 200 elements.'')"
  by (simp add: tree_str_def capped_tree_def example_tree_def plain_colors_def default_args_def
      name_def str_int_def digit_def Let_def)

theorem text_layout_witness:
  "Tree example_fs [''tmp''] default_args = Inr example_tree \<and>
   tree_str example_fs plain_colors example_tree =
     Inr (''tmp'' @ newline
       @ inner_connector @ ''folder1'' @ newline
       @ inner_indent @ inner_connector @ ''file1.txt'' @ newline
       @ inner_indent @ last_connector @ ''file2.txt'' @ newline
       @ last_connector @ ''folder2'' @ newline
       @ last_indent @ last_connector @ ''subfolder1'' @ newline
       @ last_indent @ last_indent @ last_connector @ ''file3.txt'' @ newline
       @ newline @ ''Directories: 3, Files: 3'') \<and>
   diagram (highlighted example_fs plain_colors example_tree) [] (children (root example_tree))
     = inner_connector @ ''folder1'' @ newline
       @ inner_indent @ inner_connector @ ''file1.txt'' @ newline
       @ inner_indent @ last_connector @ ''file2.txt'' @ newline
       @ last_connector @ ''folder2'' @ newline
       @ last_indent @ last_connector @ ''subfolder1'' @ newline
       @ last_indent @ last_indent @ last_connector @ ''file3.txt'' @ newline"
proof -
  note t = text_layout [of example_fs plain_colors example_tree _ "[''tmp'']" default_args]
  from t tree_str_example have
    "''tmp'' @ newline
       @ inner_connector @ ''folder1'' @ newline
       @ inner_indent @ inner_connector @ ''file1.txt'' @ newline
       @ inner_indent @ last_connector @ ''file2.txt'' @ newline
       @ last_connector @ ''folder2'' @ newline
       @ last_indent @ last_connector @ ''subfolder1'' @ newline
       @ last_indent @ last_indent @ last_connector @ ''file3.txt'' @ newline
       @ newline @ ''Directories: 3, Files: 3''
     = Fore_BLUE plain_colors @ name (state (root example_tree)) @ Style_RESET_ALL plain_colors
         @ newline
         @ diagram (highlighted example_fs plain_colors example_tree) [] (children (root example_tree))
         @ newline @ Fore_YELLOW plain_colors @ ''Directories: ''
         @ str_int (dir_count example_tree) @ '', ''
         @ Fore_GREEN plain_colors @ ''Files: '' @ str_int (file_count example_tree)
         @ Style_RESET_ALL plain_colors
         @ (if full example_tree
            then Fore_RED plain_colors @ newline @ ''Output limited to 200 elements.''
                   @ Style_RESET_ALL plain_colors
            else [])"
    by blast
  then have "diagram (highlighted example_fs plain_colors example_tree) []
        (children (root example_tree))
     = inner_connector @ ''folder1'' @ newline
       @ inner_indent @ inner_connector @ ''file1.txt'' @ newline
       @ inner_indent @ last_connector @ ''file2.txt'' @ newline
       @ last_connector @ ''folder2'' @ newline
       @ last_indent @ last_connector @ ''subfolder1'' @ newline
       @ last_indent @ last_indent @ last_connector @ ''file3.txt'' @ newline"
    by (simp add: plain_colors_def example_tree_def name_def str_int_def digit_def)
  with Tree_example tree_str_example show ?thesis by simp
qed

section \<open>The cap of 200 entries\<close>

text \<open>
  From a state with the flag set, going through a list of children only queries each
  child: the result is the state and the children as they are, or the first error of a
  query.
\<close>

lemma generate_children_full_queries:
  "full self \<Longrightarrow>
     generate_children fs self cs level =
       (case collect_results (map (\<lambda>c. is_dir fs (state c)) cs) of
          Inl e \<Rightarrow> Inl e
        | Inr answers \<Rightarrow> Inr (self, cs))"
  by (induction cs) (simp_all add: generate_tree_full split: sum.splits)

text \<open>The build of 210 directories stops at the cap.\<close>

lemma expand_loop_append_directories:
  "\<forall>c \<in> set cs. should_include fs self c = Inr True \<and> is_dir fs c = Inr True \<Longrightarrow>
   \<not> full self \<Longrightarrow> total self < 200 \<Longrightarrow>
   expand_loop_append fs cs self node =
     (if total self + int (length cs) < 200
      then (None, self\<lparr>dir_count := dir_count self + int (length cs)\<rparr>,
            TreeNode (state node) (children node @ map (\<lambda>c. TreeNode c []) cs))
      else (None, self\<lparr>dir_count := 200 - file_count self, full := True\<rparr>,
            TreeNode (state node)
              (children node @ map (\<lambda>c. TreeNode c []) (take (nat (199 - total self)) cs))))"
proof (induction cs arbitrary: self node)
  case Nil
  then show ?case by simp
next
  case (Cons c cs)
  let ?s = "if 199 \<le> total self
            then self\<lparr>dir_count := dir_count self + 1, full := True\<rparr>
            else self\<lparr>dir_count := dir_count self + 1\<rparr>"
  from Cons.prems(1) have inc: "should_include fs self c = Inr True"
    and dir: "is_dir fs c = Inr True" by simp_all
  have s: "increment_counts fs self c = Inr ?s"
    using dir by (simp add: increment_counts_def total_def Let_def)
  show ?case
  proof (cases "199 \<le> total self")
    case True
    with Cons.prems(3) have t: "total self = 199" by simp
    then have "dir_count self + 1 = 200 - file_count self"
      by (simp add: total_def)
    with inc s True t show ?thesis
      by (simp add: Let_def)
  next
    case False
    with s have s': "increment_counts fs self c = Inr (self\<lparr>dir_count := dir_count self + 1\<rparr>)"
      by simp
    let ?t = "self\<lparr>dir_count := dir_count self + 1\<rparr>"
    have nf: "\<not> full ?t" using Cons.prems(2) by simp
    have tot: "total ?t = total self + 1" by (simp add: total_def)
    have lt: "total ?t < 200" using False tot by simp
    have "should_include fs ?t = should_include fs self"
      by (rule should_include_args) simp
    then have all: "\<forall>c \<in> set cs. should_include fs ?t c = Inr True \<and> is_dir fs c = Inr True"
      using Cons.prems(1) by simp
    have "nat (199 - total self) = Suc (nat (198 - total self))"
      using False by simp
    then have tk: "take (nat (199 - total self)) (c # cs) = c # take (nat (199 - total ?t)) cs"
      by (simp add: tot)
    have "expand_loop_append fs (c # cs) self node
            = expand_loop_append fs cs ?t (TreeNode (state node) (children node @ [TreeNode c []]))"
      using inc nf s' by simp
    also note Cons.IH[OF all nf lt]
    finally show ?thesis
      unfolding tk by (simp add: tot)
  qed
qed

lemma length_many_names: "length many_names = 210"
  by (simp add: many_names_def)

lemma many_names_folder: "n \<in> set many_names \<Longrightarrow> \<exists>s. n = ''folder'' @ s"
  by (auto simp add: many_names_def simp del: str_nat.simps)

lemma many_entries:
  "\<forall>c \<in> set (map (\<lambda>n. [''tmp''] @ [n]) many_names).
     should_include many_fs self c = Inr True \<and> is_dir many_fs c = Inr True"
proof
  fix c assume "c \<in> set (map (\<lambda>n. [''tmp''] @ [n]) many_names)"
  then obtain n where n: "n \<in> set many_names" and c: "c = [''tmp'', n]" by auto
  from many_names_folder[OF n] obtain s where s: "n = ''folder'' @ s" by blast
  have "is_dir many_fs c = Inr True"
    using n c by (simp add: is_dir_def many_fs_def)
  moreover have "should_include many_fs self c = Inr True"
    using n c s by (simp add: should_include_def is_file_def many_fs_def name_def startswith_def)
  ultimately show "should_include many_fs self c = Inr True \<and> is_dir many_fs c = Inr True"
    by simp
qed

lemma Tree_many: "Tree many_fs [''tmp''] default_args = Inr many_tree"
proof -
  let ?s = "\<lparr>directory = [''tmp''], args = default_args, root = TreeNode [''tmp''] [],
               dir_count = 0, file_count = 0, full = False\<rparr>"
  let ?entries = "map (\<lambda>n. [''tmp''] @ [n]) many_names"
  let ?s1 = "?s\<lparr>dir_count := 200, full := True\<rparr>"
  let ?n1 = "TreeNode [''tmp''] (map (\<lambda>c. TreeNode c []) (take 199 ?entries))"
  have "expand_loop_append many_fs ?entries ?s (TreeNode [''tmp''] []) = (None, ?s1, ?n1)"
    using expand_loop_append_directories[OF many_entries, of ?s "TreeNode [''tmp''] []"]
    by (simp add: total_def length_many_names)
  then have "expand_loop many_fs ?entries ?s (TreeNode [''tmp''] []) = (None, ?s1, ?n1)"
    using expand_loop_eq_append[of "TreeNode [''tmp''] []" many_fs ?entries ?s] by simp
  then have e: "expand many_fs ?s (TreeNode [''tmp''] []) = Inr (?s1, ?n1)"
    by (simp add: expand_def iterdir_def many_fs_def)
  have "\<forall>c \<in> set (children ?n1). \<exists>k. kind_of many_fs (state c) = Inr k"
    by (simp add: many_fs_def)
  then have "generate_children many_fs ?s1 (children ?n1) 0 = Inr (?s1, children ?n1)"
    by (intro generate_children_full) simp_all
  with e have "generate_tree many_fs ?s (TreeNode [''tmp''] []) 0 = Inr (?s1, ?n1)"
    by (simp add: generate_tree.simps default_args_def)
  then show ?thesis
    by (simp add: Tree_def many_tree_def take_map comp_def)
qed

text \<open>
  The query on a child is made also when the flag is set: where it fails, going through
  the children fails.
\<close>

lemma generate_children_full_raises:
  "generate_children stale_fs capped_tree [TreeNode [''tmp'', ''link''] []] 0 = Inl OSError"
  by (simp add: stale_fs_def linked_fs_def is_dir_def)

text \<open>
  C1. Once the flag \<open>full\<close> is set, generating from any node at any level returns the
  counters and the node as they are, and going through any list of children only queries
  each child: it returns the counters and the children as they are, as it does whenever
  the query answers for every child, or fails with the first error of a query. No node is
  created any more. The entry whose count sets the flag ends the loop of \<open>expand\<close>
  without a node. After a build the two counters add up to at most 200, which is within
  the bound of 200 plus the one entry that set the flag, and the flag is set exactly when
  the sum is 200.
\<close>

theorem truncation_is_global:
  "(full self \<longrightarrow>
      generate_tree fs self node level = Inr (self, node) \<and>
      generate_children fs self cs level =
        (case collect_results (map (\<lambda>c. is_dir fs (state c)) cs) of
           Inl e \<Rightarrow> Inl e
         | Inr answers \<Rightarrow> Inr (self, cs)) \<and>
      ((\<forall>c \<in> set cs. known fs (state c)) \<longrightarrow>
         generate_children fs self cs level = Inr (self, cs))) \<and>
   (should_include fs before child = Inr True \<and> increment_counts fs before child = Inr counted \<and>
    full counted \<longrightarrow>
      expand_loop fs (child # rest) before parent = (None, counted, parent)) \<and>
   (Tree fs dir ar = Inr t \<longrightarrow>
      dir_count t + file_count t \<le> 200 \<and> (full t \<longleftrightarrow> dir_count t + file_count t = 200))"
proof -
  have "full self \<Longrightarrow> \<forall>c \<in> set cs. known fs (state c) \<Longrightarrow>
      generate_children fs self cs level = Inr (self, cs)"
    by (rule generate_children_full) (simp_all add: known_iff)
  moreover have "Tree fs dir ar = Inr t \<Longrightarrow>
      dir_count t + file_count t \<le> 200 \<and> (full t \<longleftrightarrow> dir_count t + file_count t = 200)"
    using Tree_cap_inv[of fs dir ar t] by (simp add: cap_inv_def total_def)
  moreover have "should_include fs before child = Inr True \<Longrightarrow>
      increment_counts fs before child = Inr counted \<Longrightarrow> full counted \<Longrightarrow>
      expand_loop fs (child # rest) before parent = (None, counted, parent)"
    by simp
  moreover note generate_tree_full[of self fs node level]
    generate_children_full_queries[of self fs cs level]
  ultimately show ?thesis by blast
qed

theorem truncation_is_global_witness:
  "full capped_tree \<and>
   generate_tree example_fs capped_tree (TreeNode [''tmp''] []) 0
     = Inr (capped_tree, TreeNode [''tmp''] []) \<and>
   list_all (\<lambda>c. known example_fs (state c)) [TreeNode [''tmp'', ''folder1''] []] \<and>
   generate_children example_fs capped_tree [TreeNode [''tmp'', ''folder1''] []] 0
     = Inr (capped_tree, [TreeNode [''tmp'', ''folder1''] []]) \<and>
   should_include example_fs brim_tree [''tmp'', ''folder1''] = Inr True \<and>
   increment_counts example_fs brim_tree [''tmp'', ''folder1'']
     = Inr (brim_tree\<lparr>dir_count := 121, full := True\<rparr>) \<and>
   expand_loop example_fs [[''tmp'', ''folder1''], [''tmp'', ''folder2'']] brim_tree
       (TreeNode [''tmp''] [])
     = (None, brim_tree\<lparr>dir_count := 121, full := True\<rparr>, TreeNode [''tmp''] []) \<and>
   Tree example_fs [''tmp''] default_args = Inr example_tree \<and>
   dir_count example_tree + file_count example_tree \<le> 200 \<and>
   \<not> full example_tree \<and>
   Tree many_fs [''tmp''] default_args = Inr many_tree \<and>
   dir_count many_tree + file_count many_tree = 200 \<and>
   full many_tree"
proof -
  have 1: "full capped_tree"
    by (simp add: capped_tree_def)
  have 2: "should_include example_fs brim_tree [''tmp'', ''folder1''] = Inr True"
    by (simp add: should_include_def brim_tree_def example_tree_def default_args_def
        startswith_def name_def)
  have 3: "increment_counts example_fs brim_tree [''tmp'', ''folder1'']
             = Inr (brim_tree\<lparr>dir_count := 121, full := True\<rparr>)"
    by (simp add: increment_counts_def is_dir_def example_fs_def brim_tree_def example_tree_def
        Let_def)
  have 4: "list_all (\<lambda>c. known example_fs (state c)) [TreeNode [''tmp'', ''folder1''] []]"
    by (simp add: known_def example_fs_def)
  note a = truncation_is_global [where self = capped_tree and fs = example_fs
      and node = "TreeNode [''tmp''] []" and level = 0
      and cs = "[TreeNode [''tmp'', ''folder1''] []]" and before = brim_tree
      and child = "[''tmp'', ''folder1'']" and rest = "[[''tmp'', ''folder2'']]"
      and counted = "brim_tree\<lparr>dir_count := 121, full := True\<rparr>"
      and parent = "TreeNode [''tmp''] []" and dir = "[''tmp'']" and ar = default_args
      and t = example_tree]
  note b = truncation_is_global [where self = capped_tree and fs = many_fs
      and dir = "[''tmp'']" and ar = default_args and t = many_tree]
  from 4 have k: "\<forall>c \<in> set [TreeNode [''tmp'', ''folder1''] []]. known example_fs (state c)"
    by simp
  have f: "full (brim_tree\<lparr>dir_count := 121, full := True\<rparr>)" by simp
  from a 1 2 3 k f Tree_example have A:
    "generate_tree example_fs capped_tree (TreeNode [''tmp''] []) 0
       = Inr (capped_tree, TreeNode [''tmp''] []) \<and>
     generate_children example_fs capped_tree [TreeNode [''tmp'', ''folder1''] []] 0
       = Inr (capped_tree, [TreeNode [''tmp'', ''folder1''] []]) \<and>
     expand_loop example_fs [[''tmp'', ''folder1''], [''tmp'', ''folder2'']] brim_tree
         (TreeNode [''tmp''] [])
       = (None, brim_tree\<lparr>dir_count := 121, full := True\<rparr>, TreeNode [''tmp''] []) \<and>
     dir_count example_tree + file_count example_tree \<le> 200 \<and>
     (full example_tree \<longleftrightarrow> dir_count example_tree + file_count example_tree = 200)"
    by blast
  from b 1 Tree_many have B:
    "dir_count many_tree + file_count many_tree \<le> 200 \<and>
     (full many_tree \<longleftrightarrow> dir_count many_tree + file_count many_tree = 200)"
    by (simp del: generate_children.simps expand_loop.simps)
  have 5: "dir_count example_tree + file_count example_tree = 6"
    by (simp add: example_tree_def)
  have 6: "dir_count many_tree + file_count many_tree = 200"
    by (simp add: many_tree_def)
  from A B 1 2 3 4 5 6 Tree_example Tree_many show ?thesis
    by (simp del: generate_children.simps expand_loop.simps)
qed

text \<open>
  C10. The entry whose count sets the flag is counted, and \<open>expand\<close> ends there without
  a node for it. After a build the number of nodes below the root is the sum of the two
  counters, less one when the flag is set.
\<close>

theorem nodes_match_counts:
  "(should_include fs before child = Inr True \<and> increment_counts fs before child = Inr counted \<and>
    full counted \<longrightarrow>
      dir_count counted + file_count counted = dir_count before + file_count before + 1 \<and>
      expand_loop fs (child # rest) before parent = (None, counted, parent)) \<and>
   (Tree fs dir ar = Inr t \<longrightarrow>
      int (length (nodes (root t))) - 1
        = dir_count t + file_count t - (if full t then 1 else 0))"
  using Tree_count[of fs dir ar t] increment_counts_total[of fs before child counted]
  by (simp add: total_def)

theorem nodes_match_counts_witness:
  "should_include example_fs brim_tree [''tmp'', ''folder1''] = Inr True \<and>
   increment_counts example_fs brim_tree [''tmp'', ''folder1'']
     = Inr (brim_tree\<lparr>dir_count := 121, full := True\<rparr>) \<and>
   dir_count brim_tree + file_count brim_tree = 199 \<and>
   dir_count (brim_tree\<lparr>dir_count := 121, full := True\<rparr>)
     + file_count (brim_tree\<lparr>dir_count := 121, full := True\<rparr>) = 200 \<and>
   expand_loop example_fs [[''tmp'', ''folder1''], [''tmp'', ''folder2'']] brim_tree
       (TreeNode [''tmp''] [])
     = (None, brim_tree\<lparr>dir_count := 121, full := True\<rparr>, TreeNode [''tmp''] []) \<and>
   Tree example_fs [''tmp''] default_args = Inr example_tree \<and>
   int (length (nodes (root example_tree))) - 1 = 6 \<and>
   dir_count example_tree + file_count example_tree - (if full example_tree then 1 else 0) = 6 \<and>
   Tree many_fs [''tmp''] default_args = Inr many_tree \<and>
   full many_tree \<and>
   dir_count many_tree + file_count many_tree = 200 \<and>
   int (length (nodes (root many_tree))) - 1 = 199"
proof -
  have 1: "should_include example_fs brim_tree [''tmp'', ''folder1''] = Inr True"
    by (simp add: should_include_def brim_tree_def example_tree_def default_args_def
        startswith_def name_def)
  have 2: "increment_counts example_fs brim_tree [''tmp'', ''folder1'']
             = Inr (brim_tree\<lparr>dir_count := 121, full := True\<rparr>)"
    by (simp add: increment_counts_def is_dir_def example_fs_def brim_tree_def example_tree_def
        Let_def)
  have 3: "dir_count brim_tree + file_count brim_tree = 199"
    by (simp add: brim_tree_def example_tree_def)
  have many_counts: "full many_tree \<and> dir_count many_tree = 200 \<and> file_count many_tree = 0"
    by (simp add: many_tree_def)
  note a = nodes_match_counts [where fs = example_fs and before = brim_tree
      and child = "[''tmp'', ''folder1'']" and rest = "[[''tmp'', ''folder2'']]"
      and counted = "brim_tree\<lparr>dir_count := 121, full := True\<rparr>"
      and parent = "TreeNode [''tmp''] []" and dir = "[''tmp'']" and ar = default_args
      and t = example_tree]
  note b = nodes_match_counts [where fs = many_fs and dir = "[''tmp'']" and ar = default_args
      and t = many_tree]
  from a 1 2 3 Tree_example have A:
    "dir_count (brim_tree\<lparr>dir_count := 121, full := True\<rparr>)
       + file_count (brim_tree\<lparr>dir_count := 121, full := True\<rparr>) = 200 \<and>
     expand_loop example_fs [[''tmp'', ''folder1''], [''tmp'', ''folder2'']] brim_tree
         (TreeNode [''tmp''] [])
       = (None, brim_tree\<lparr>dir_count := 121, full := True\<rparr>, TreeNode [''tmp''] []) \<and>
     int (length (nodes (root example_tree))) - 1
       = dir_count example_tree + file_count example_tree - (if full example_tree then 1 else 0)"
    by (simp del: expand_loop.simps)
  from b Tree_many many_counts have B: "int (length (nodes (root many_tree))) - 1 = 199"
    by (simp del: expand_loop.simps)
  have 4: "dir_count example_tree + file_count example_tree
             - (if full example_tree then 1 else 0) = 6"
    by (simp add: example_tree_def)
  from A B 1 2 3 4 Tree_example Tree_many many_counts show ?thesis
    by (simp del: expand_loop.simps)
qed

end
